theory Spec2Isabelle
  imports Main "HOL-Library.Sublist"
begin

section \<open>Model of \<open>gptme/util.py\<close>\<close>

text \<open>
  Python strings are modelled as \<^typ>\<open>string\<close>: a list of characters, each standing for
  the code point of the same number (0 to 255). The newline is \<open>CHR 0x0A\<close>.
\<close>

subsection \<open>Vocabularies, \<open>generate_name\<close> and \<open>is_generated_name\<close>\<close>

definition actions :: "string list" where
  "actions = [''running'', ''jumping'', ''walking'', ''skipping'', ''hopping'', ''flying'',
     ''swimming'', ''crawling'', ''sneaking'', ''sprinting'', ''sneaking'', ''dancing'',
     ''singing'', ''laughing'']"

definition adjectives :: "string list" where
  "adjectives = [''funny'', ''happy'', ''sad'', ''angry'', ''silly'', ''crazy'', ''sneaky'',
     ''sleepy'', ''hungry'', ''red'', ''blue'', ''green'', ''pink'', ''purple'', ''yellow'',
     ''orange'']"

definition nouns :: "string list" where
  "nouns = [''cat'', ''dog'', ''rat'', ''mouse'', ''fish'', ''elephant'', ''dinosaur'', ''bird'',
     ''pelican'', ''dragon'', ''unicorn'', ''mermaid'', ''monster'', ''alien'', ''robot'',
     ''whale'', ''shark'', ''walrus'', ''octopus'', ''squid'', ''jellyfish'', ''starfish'',
     ''penguin'', ''seal'']"

text \<open>
  \<open>random.choice(seq)\<close> returns \<open>seq[r]\<close> for an index \<open>r\<close> drawn below \<open>len(seq)\<close>;
  the draw is an argument of the model.
\<close>

definition choice :: "'a list \<Rightarrow> nat \<Rightarrow> 'a" where
  "choice seq r = seq ! r"

definition generate_name :: "nat \<Rightarrow> nat \<Rightarrow> nat \<Rightarrow> string" where
  "generate_name r1 r2 r3 =
     (let action = choice actions r1;
          adjective = choice adjectives r2;
          noun = choice nouns r3
      in action @ ''-'' @ adjective @ ''-'' @ noun)"

text \<open>\<open>s.count(c)\<close> and \<open>s.split(c)\<close> for a separator of one character.\<close>

definition str_count :: "string \<Rightarrow> char \<Rightarrow> nat" where
  "str_count s c = length (filter (\<lambda>x. x = c) s)"

fun str_split :: "string \<Rightarrow> char \<Rightarrow> string list" where
  "str_split [] c = [[]]"
| "str_split (x # xs) c =
     (if x = c then [] # str_split xs c
      else (x # hd (str_split xs c)) # tl (str_split xs c))"

definition is_generated_name :: "string \<Rightarrow> bool" where
  "is_generated_name name =
     (let all_words = actions @ adjectives @ nouns
      in str_count name CHR ''-'' = 2 \<and>
         list_all (\<lambda>word. word \<in> set all_words) (str_split name CHR ''-''))"

text \<open>The character classes the vocabulary claim speaks of.\<close>

definition is_lower_alpha :: "char \<Rightarrow> bool" where
  "is_lower_alpha c = (97 \<le> (of_char c :: nat) \<and> (of_char c :: nat) \<le> 122)"

definition vocabulary :: "string set" where
  "vocabulary = set actions \<union> set adjectives \<union> set nouns"

subsection \<open>\<open>epoch_to_age\<close>\<close>






















subsection \<open>The regular expressions of \<open>re\<close>, as backtracking matchers\<close>

text \<open>
  A matcher maps a position in the subject string to the list of positions where a match
  of the expression can end, in the order in which the backtracking engine of \<open>re\<close>
  tries them. The head of the list is the match that \<open>re\<close> reports. The state holds
  the index of the position, the text from there on, and the groups captured so far.
\<close>

record mstate =
  pos :: nat
  rest :: string
  grp :: "nat \<Rightarrow> string option"

type_synonym matcher = "mstate \<Rightarrow> mstate list"

text \<open>One character of a class; a literal character; \<open>^\<close> (no MULTILINE flag).\<close>

definition re_cls :: "(char \<Rightarrow> bool) \<Rightarrow> matcher" where
  "re_cls P st =
     (case rest st of
        [] \<Rightarrow> []
      | x # xs \<Rightarrow> if P x then [st\<lparr>pos := Suc (pos st), rest := xs\<rparr>] else [])"

definition re_lit :: "char \<Rightarrow> matcher" where
  "re_lit c = re_cls (\<lambda>x. x = c)"

definition re_bol :: matcher where
  "re_bol st = (if pos st = 0 then [st] else [])"

definition re_eps :: matcher where
  "re_eps st = [st]"

text \<open>Concatenation; alternation \<open>a|b\<close>, the left branch first.\<close>

definition re_seq :: "matcher \<Rightarrow> matcher \<Rightarrow> matcher" where
  "re_seq a b st = concat (map b (a st))"

definition re_alt :: "matcher \<Rightarrow> matcher \<Rightarrow> matcher" where
  "re_alt a b st = a st @ b st"

definition re_cat :: "matcher list \<Rightarrow> matcher" where
  "re_cat ms = foldr re_seq ms re_eps"

definition re_lits :: "string \<Rightarrow> matcher" where
  "re_lits cs = re_cat (map re_lit cs)"

text \<open>
  The greedy quantifiers \<open>?\<close>, \<open>+\<close> and \<open>*\<close>: one more repetition is tried before
  stopping. Each repetition of the bodies used here takes at least one character, so
  a \<open>+\<close> repeats at most as often as there are characters left; that bounds the fuel.
\<close>

definition re_opt :: "matcher \<Rightarrow> matcher" where
  "re_opt a = re_alt a re_eps"

primrec re_plus_fuel :: "nat \<Rightarrow> matcher \<Rightarrow> matcher" where
  "re_plus_fuel 0 a st = []"
| "re_plus_fuel (Suc n) a st = concat (map (\<lambda>st'. re_plus_fuel n a st' @ [st']) (a st))"

definition re_plus :: "matcher \<Rightarrow> matcher" where
  "re_plus a st = re_plus_fuel (Suc (length (rest st))) a st"

definition re_star :: "matcher \<Rightarrow> matcher" where
  "re_star a = re_alt (re_plus a) re_eps"

text \<open>A capturing group records the text its body consumed.\<close>

definition re_group :: "nat \<Rightarrow> matcher \<Rightarrow> matcher" where
  "re_group i a st =
     map (\<lambda>st'. st'\<lparr>grp := (grp st')(i \<mapsto> take (pos st' - pos st) (rest st))\<rparr>) (a st)"

text \<open>
  The classes: \<open>.\<close> is any character but the newline; \<open>\s\<close> is the whitespace of
  \<open>str.isspace\<close>; the line boundaries are those of \<open>str.splitlines\<close>.
\<close>

definition NL :: char where
  "NL = CHR 0x0A"

definition re_dot :: "char \<Rightarrow> bool" where
  "re_dot c = (c \<noteq> NL)"

definition is_space :: "char \<Rightarrow> bool" where
  "is_space c = ((of_char c :: nat) \<in> set [9, 10, 11, 12, 13, 28, 29, 30, 31, 32, 133, 160])"

definition is_linebreak :: "char \<Rightarrow> bool" where
  "is_linebreak c = ((of_char c :: nat) \<in> set [10, 11, 12, 13, 28, 29, 30, 133])"

text \<open>A group that took no part in the match expands to the empty string.\<close>

definition expand_group :: "mstate \<Rightarrow> nat \<Rightarrow> string" where
  "expand_group m i = (case grp m i of None \<Rightarrow> [] | Some g \<Rightarrow> g)"

text \<open>
  \<open>re.sub(pattern, repl, s)\<close>: the leftmost match from the current position is replaced
  and the scan goes on behind it; a character where no match starts is copied. A match
  that is empty is replaced and the scan moves on by one character.
\<close>

fun re_sub_from :: "matcher \<Rightarrow> (mstate \<Rightarrow> string) \<Rightarrow> nat \<Rightarrow> string \<Rightarrow> string" where
  "re_sub_from pat repl p s =
     (case pat \<lparr>pos = p, rest = s, grp = (\<lambda>_. None)\<rparr> of
        m # _ \<Rightarrow>
          if length (rest m) < length s then repl m @ re_sub_from pat repl (pos m) (rest m)
          else repl m @ (case s of [] \<Rightarrow> [] | c # cs \<Rightarrow> c # re_sub_from pat repl (Suc p) cs)
      | [] \<Rightarrow> (case s of [] \<Rightarrow> [] | c # cs \<Rightarrow> c # re_sub_from pat repl (Suc p) cs))"

declare re_sub_from.simps [simp del]

definition re_sub :: "matcher \<Rightarrow> (mstate \<Rightarrow> string) \<Rightarrow> string \<Rightarrow> string" where
  "re_sub pat repl s = re_sub_from pat repl 0 s"

subsection \<open>\<open>textwrap.indent\<close>\<close>

text \<open>\<open>s.splitlines(True)\<close>: the lines with their terminators; \<open>\r\n\<close> is one terminator.\<close>

fun splitlines_from :: "string \<Rightarrow> string \<Rightarrow> string list" where
  "splitlines_from cur [] = (if cur = [] then [] else [cur])"
| "splitlines_from cur [c] = (if is_linebreak c then [cur @ [c]] else [cur @ [c]])"
| "splitlines_from cur (c # d # cs) =
     (if c = CHR 0x0D \<and> d = CHR 0x0A then (cur @ [c, d]) # splitlines_from [] cs
      else if is_linebreak c then (cur @ [c]) # splitlines_from [] (d # cs)
      else splitlines_from (cur @ [c]) (d # cs))"

definition splitlines :: "string \<Rightarrow> string list" where
  "splitlines s = splitlines_from [] s"

definition isspace :: "string \<Rightarrow> bool" where
  "isspace s = (s \<noteq> [] \<and> list_all is_space s)"

definition indent :: "string \<Rightarrow> string \<Rightarrow> string" where
  "indent text pfx =
     concat (map (\<lambda>line. if \<not> isspace line then pfx @ line else line) (splitlines text))"

subsection \<open>\<open>transform_examples_to_chat_directives\<close>\<close>

text \<open>The first pattern, \<^verbatim>\<open>(^|\n)([>] )?(.+):\<close>, and its template \<^verbatim>\<open>\1\3:\<close>.\<close>

definition pattern1 :: matcher where
  "pattern1 =
     re_cat [re_group 1 (re_alt re_bol (re_lit NL)),
             re_opt (re_group 2 (re_cat [re_cls (\<lambda>c. c = CHR ''>''), re_lit CHR '' ''])),
             re_group 3 (re_plus (re_cls re_dot)),
             re_lit CHR '':'']"

definition repl1 :: "mstate \<Rightarrow> string" where
  "repl1 m = expand_group m 1 @ expand_group m 3 @ '':''"

text \<open>
  The second pattern, \<^verbatim>\<open>(^|\n)(   [# ]+(.+)(\n\s*)+)?   User:\<close>, and its template
  \<^verbatim>\<open>\1\3\n\n.. chat::\n\n   User:\<close>.
\<close>

definition pattern2 :: matcher where
  "pattern2 =
     re_cat [re_group 1 (re_alt re_bol (re_lit NL)),
             re_opt (re_group 2 (re_cat
               [re_lits ''   '',
                re_plus (re_cls (\<lambda>c. c = CHR ''#'' \<or> c = CHR '' '')),
                re_group 3 (re_plus (re_cls re_dot)),
                re_plus (re_group 4 (re_cat [re_lit NL, re_star (re_cls is_space)]))])),
             re_lits ''   User:'']"

definition repl2 :: "mstate \<Rightarrow> string" where
  "repl2 m =
     expand_group m 1 @ expand_group m 3 @ [NL, NL] @ ''.. chat::'' @ [NL, NL] @ ''   User:''"

text \<open>The two assertions of strict mode fail with these messages.\<close>

datatype error = AssertionError string

definition NoMessageFound :: error where
  "NoMessageFound = AssertionError ''Couldn't find a message''"

definition NoDirectivePlacementFound :: error where
  "NoDirectivePlacementFound = AssertionError ''Couldn't find place to put start of directive''"

definition transform_examples_to_chat_directives :: "string \<Rightarrow> bool \<Rightarrow> error + string" where
  "transform_examples_to_chat_directives s strict =
     (let orig = s;
          s1 = re_sub pattern1 repl1 s
      in if strict \<and> \<not> (s1 \<noteq> orig) then Inl NoMessageFound
         else
           let s2 = indent s1 ''   '';
               orig2 = s2;
               s3 = re_sub pattern2 repl2 s2
           in if strict \<and> \<not> (s3 \<noteq> orig2) then Inl NoDirectivePlacementFound
              else Inr s3)"

text \<open>The number of occurrences of a text in another, counted at every position.\<close>

fun occurrences :: "string \<Rightarrow> string \<Rightarrow> nat" where
  "occurrences w [] = (if w = [] then 1 else 0)"
| "occurrences w (c # cs) = (if prefix w (c # cs) then 1 else 0) + occurrences w cs"

subsection \<open>Notions for the statements\<close>

text \<open>\<open>sep.join(lines)\<close>, the inverse of \<open>str_split\<close>.\<close>

fun str_join :: "char \<Rightarrow> string list \<Rightarrow> string" where
  "str_join c [] = []"
| "str_join c [l] = l"
| "str_join c (l # k # ls) = l @ c # str_join c (k # ls)"

text \<open>What a match of a sub-expression consumed: the text \<open>u\<close> between two states.\<close>

definition eats :: "mstate \<Rightarrow> string \<Rightarrow> mstate \<Rightarrow> bool" where
  "eats st u m \<longleftrightarrow> rest st = u @ rest m \<and> pos m = pos st + length u"

text \<open>
  A line that starts with the quoting marker \<open>> \<close> and has a colon behind it; and
  the relation between a line and what the first substitution can make of it: the line
  itself, or the line without its marker.
\<close>

definition quoted_role_line :: "string \<Rightarrow> bool" where
  "quoted_role_line l \<longleftrightarrow> prefix ''> '' l \<and> CHR '':'' \<in> set (drop 2 l)"

definition marker_stripped :: "string \<Rightarrow> string \<Rightarrow> bool" where
  "marker_stripped l l' \<longleftrightarrow> l' = l \<or> (quoted_role_line l \<and> l = ''> '' @ l')"

section \<open>Names\<close>

lemma str_split_nonempty: "str_split s c \<noteq> []"
  by (induction s) auto

lemma length_str_split: "length (str_split s c) = Suc (str_count s c)"
  by (induction s) (auto simp: str_count_def str_split_nonempty)

lemma str_split_no_sep: "c \<notin> set a \<Longrightarrow> str_split a c = [a]"
  by (induction a) auto

lemma str_split_append: "c \<notin> set a \<Longrightarrow> str_split (a @ c # s) c = a # str_split s c"
  by (induction a) auto

lemma str_split_cases:
  "str_split s c = w # ws \<Longrightarrow>
     c \<notin> set w \<and> ((ws = [] \<and> s = w) \<or> (\<exists>s'. s = w @ c # s' \<and> str_split s' c = ws))"
proof (induction s arbitrary: w ws)
  case Nil
  then show ?case by simp
next
  case (Cons x xs)
  show ?case
  proof (cases "x = c")
    case True
    with Cons.prems show ?thesis by auto
  next
    case False
    obtain v vs where v: "str_split xs c = v # vs"
      using str_split_nonempty [of xs c] by (cases "str_split xs c") auto
    from Cons.IH [OF v] have ih: "c \<notin> set v"
      "(vs = [] \<and> xs = v) \<or> (\<exists>s'. xs = v @ c # s' \<and> str_split s' c = vs)" by auto
    from Cons.prems False v have w: "w = x # v" "ws = vs" by auto
    from ih w False show ?thesis by auto
  qed
qed

lemma str_count_append: "str_count (a @ b) c = str_count a c + str_count b c"
  by (simp add: str_count_def)

lemma filter_no_sep: "c \<notin> set a \<Longrightarrow> filter (\<lambda>x. x = c) a = []"
  by (induction a) auto

lemma vocab_lower:
  "list_all (\<lambda>w. w \<noteq> [] \<and> list_all is_lower_alpha w) (actions @ adjectives @ nouns)"
  by (simp add: actions_def adjectives_def nouns_def is_lower_alpha_def)

lemma lower_not_dash: "is_lower_alpha c \<Longrightarrow> c \<noteq> CHR ''-'' \<and> \<not> is_space c"
  by (auto simp: is_lower_alpha_def is_space_def)

lemma vocabulary_words: "w \<in> vocabulary \<Longrightarrow> w \<noteq> [] \<and> list_all is_lower_alpha w"
  using vocab_lower by (auto simp: vocabulary_def list_all_iff)

lemma vocabulary_no_dash: "w \<in> vocabulary \<Longrightarrow> CHR ''-'' \<notin> set w"
  using vocabulary_words [of w] lower_not_dash by (auto simp: list_all_iff)

lemma set_all_words: "set (actions @ adjectives @ nouns) = vocabulary"
  by (auto simp: vocabulary_def)

lemma three_words_recognised:
  assumes "a \<in> vocabulary" "b \<in> vocabulary" "c \<in> vocabulary"
  shows "is_generated_name (a @ ''-'' @ b @ ''-'' @ c)"
proof -
  have d: "CHR ''-'' \<notin> set a" "CHR ''-'' \<notin> set b" "CHR ''-'' \<notin> set c"
    using assms by (auto dest: vocabulary_no_dash)
  have cnt: "str_count (a @ ''-'' @ b @ ''-'' @ c) CHR ''-'' = 2"
    using d by (simp add: str_count_def filter_no_sep)
  have spl: "str_split (a @ ''-'' @ b @ ''-'' @ c) CHR ''-'' = [a, b, c]"
    using d by (simp add: str_split_append str_split_no_sep)
  show ?thesis
    unfolding is_generated_name_def Let_def cnt spl
    using assms by (simp add: vocabulary_def)
qed

lemma recognised_three_words:
  assumes "is_generated_name name"
  shows "\<exists>a b c. name = a @ ''-'' @ b @ ''-'' @ c \<and> a \<in> vocabulary \<and> b \<in> vocabulary \<and>
           c \<in> vocabulary"
proof -
  from assms have cnt: "str_count name CHR ''-'' = 2"
    and mem: "\<forall>w \<in> set (str_split name CHR ''-''). w \<in> vocabulary"
    by (simp_all add: is_generated_name_def Let_def list_all_iff vocabulary_def)
  from cnt have len: "length (str_split name CHR ''-'') = 3"
    by (simp add: length_str_split)
  then obtain a b c where abc: "str_split name CHR ''-'' = [a, b, c]"
    by (auto simp: length_Suc_conv numeral_3_eq_3)
  from str_split_cases [OF abc] obtain s1 where s1: "name = a @ CHR ''-'' # s1"
    "str_split s1 CHR ''-'' = [b, c]" by auto
  from str_split_cases [OF s1(2)] obtain s2 where s2: "s1 = b @ CHR ''-'' # s2"
    "str_split s2 CHR ''-'' = [c]" by auto
  from str_split_cases [OF s2(2)] have s3: "s2 = c" by (auto simp: str_split_nonempty)
  from mem abc have "a \<in> vocabulary" "b \<in> vocabulary" "c \<in> vocabulary" by auto
  with s1 s2 s3 show ?thesis by auto
qed

lemma unknown_segment:
  assumes "CHR ''-'' \<notin> set a \<union> set b \<union> set c"
    and "a \<notin> vocabulary \<or> b \<notin> vocabulary \<or> c \<notin> vocabulary"
  shows "\<not> is_generated_name (a @ ''-'' @ b @ ''-'' @ c)"
proof -
  from assms(1) have spl: "str_split (a @ ''-'' @ b @ ''-'' @ c) CHR ''-'' = [a, b, c]"
    by (simp add: str_split_append str_split_no_sep)
  show ?thesis
    unfolding is_generated_name_def Let_def spl using assms(2) by (auto simp: vocabulary_def)
qed

lemma not_recognised_capital: "\<not> is_generated_name ''Running-happy-cat''"
proof -
  have "''Running'' \<notin> vocabulary"
    using vocabulary_words [of "''Running''"] by (auto simp: is_lower_alpha_def)
  then have "\<not> is_generated_name (''Running'' @ ''-'' @ ''happy'' @ ''-'' @ ''cat'')"
    by (intro unknown_segment) simp_all
  then show ?thesis by simp
qed

text \<open>
  Claim C2. \<open>is_generated_name name\<close> holds exactly when \<open>name\<close> has two separators
  \<open>-\<close> and its three segments are words of the union of the three vocabularies, in
  any order of categories: a noun, an action and an adjective joined in that order are
  recognised. The empty string, a name with another number of separators, and a name with a
  segment outside the vocabularies are not; \<open>running\<close> is a word, \<open>Running\<close> is not.
\<close>

theorem recognised_iff:
  "(is_generated_name name \<longleftrightarrow>
      str_count name CHR ''-'' = 2 \<and>
      (\<exists>a b c. name = a @ ''-'' @ b @ ''-'' @ c \<and> a \<in> vocabulary \<and> b \<in> vocabulary \<and>
         c \<in> vocabulary)) \<and>
   (\<forall>n \<in> set nouns. \<forall>a \<in> set actions. \<forall>j \<in> set adjectives.
      is_generated_name (n @ ''-'' @ a @ ''-'' @ j)) \<and>
   \<not> is_generated_name [] \<and>
   (str_count name CHR ''-'' \<noteq> 2 \<longrightarrow> \<not> is_generated_name name) \<and>
   (\<forall>a b c. CHR ''-'' \<notin> set a \<union> set b \<union> set c \<and>
      (a \<notin> vocabulary \<or> b \<notin> vocabulary \<or> c \<notin> vocabulary) \<longrightarrow>
      \<not> is_generated_name (a @ ''-'' @ b @ ''-'' @ c)) \<and>
   ''running'' \<in> vocabulary \<and> \<not> is_generated_name ''Running-happy-cat''"
proof (intro conjI)
  show "is_generated_name name \<longleftrightarrow>
      str_count name CHR ''-'' = 2 \<and>
      (\<exists>a b c. name = a @ ''-'' @ b @ ''-'' @ c \<and> a \<in> vocabulary \<and> b \<in> vocabulary \<and>
         c \<in> vocabulary)"
  proof
    assume g: "is_generated_name name"
    then have "str_count name CHR ''-'' = 2" by (simp add: is_generated_name_def)
    with recognised_three_words [OF g] show "str_count name CHR ''-'' = 2 \<and>
      (\<exists>a b c. name = a @ ''-'' @ b @ ''-'' @ c \<and> a \<in> vocabulary \<and> b \<in> vocabulary \<and>
         c \<in> vocabulary)" by simp
  next
    assume "str_count name CHR ''-'' = 2 \<and>
      (\<exists>a b c. name = a @ ''-'' @ b @ ''-'' @ c \<and> a \<in> vocabulary \<and> b \<in> vocabulary \<and>
         c \<in> vocabulary)"
    then obtain a b c where "name = a @ ''-'' @ b @ ''-'' @ c" "a \<in> vocabulary"
      "b \<in> vocabulary" "c \<in> vocabulary" by blast
    then show "is_generated_name name" using three_words_recognised by simp
  qed
  show "\<forall>n \<in> set nouns. \<forall>a \<in> set actions. \<forall>j \<in> set adjectives.
      is_generated_name (n @ ''-'' @ a @ ''-'' @ j)"
  proof (intro ballI)
    fix n a j
    assume "n \<in> set nouns" "a \<in> set actions" "j \<in> set adjectives"
    then have "n \<in> vocabulary" "a \<in> vocabulary" "j \<in> vocabulary"
      by (simp_all add: vocabulary_def)
    then show "is_generated_name (n @ ''-'' @ a @ ''-'' @ j)" by (rule three_words_recognised)
  qed
  show "\<not> is_generated_name []"
    by (simp add: is_generated_name_def str_count_def)
  show "str_count name CHR ''-'' \<noteq> 2 \<longrightarrow> \<not> is_generated_name name"
    by (simp add: is_generated_name_def)
  show "\<forall>a b c. CHR ''-'' \<notin> set a \<union> set b \<union> set c \<and>
      (a \<notin> vocabulary \<or> b \<notin> vocabulary \<or> c \<notin> vocabulary) \<longrightarrow>
      \<not> is_generated_name (a @ ''-'' @ b @ ''-'' @ c)"
    using unknown_segment by blast
  show "''running'' \<in> vocabulary"
    by (simp add: vocabulary_def actions_def)
  show "\<not> is_generated_name ''Running-happy-cat''"
    by (rule not_recognised_capital)
qed

text \<open>Claim C2 at the names \<open>cat-running-happy\<close>, \<open>cat-running\<close> and \<open>cat-running-nothing\<close>.\<close>

theorem recognised_iff_witness:
  "is_generated_name ''cat-running-happy'' \<and> \<not> is_generated_name ''cat-running'' \<and>
   \<not> is_generated_name ''cat-running-nothing''"
proof -
  have v: "''cat'' \<in> set nouns" "''running'' \<in> set actions" "''happy'' \<in> set adjectives"
    "''nothing'' \<notin> vocabulary" "''cat'' \<in> vocabulary" "''running'' \<in> vocabulary"
    by (simp_all add: vocabulary_def nouns_def actions_def adjectives_def)
  have c: "str_count ''cat-running'' CHR ''-'' \<noteq> 2" by (simp add: str_count_def)
  have d: "CHR ''-'' \<notin> set ''cat'' \<union> set ''running'' \<union> set ''nothing''" by simp
  note R = recognised_iff [of "''cat-running''"]
  from R v have 1: "is_generated_name (''cat'' @ ''-'' @ ''running'' @ ''-'' @ ''happy'')"
    by blast
  from R c have 2: "\<not> is_generated_name ''cat-running''" by blast
  from R v d have 3: "\<not> is_generated_name (''cat'' @ ''-'' @ ''running'' @ ''-'' @ ''nothing'')"
    by blast
  from 1 2 3 show ?thesis by simp
qed

text \<open>
  Claim C3. Whatever the three draws, the name that \<open>generate_name\<close> builds from an
  action, an adjective and a noun is recognised by \<open>is_generated_name\<close>.
\<close>

theorem generated_is_recognised:
  "r1 < length actions \<Longrightarrow> r2 < length adjectives \<Longrightarrow> r3 < length nouns \<Longrightarrow>
     is_generated_name (generate_name r1 r2 r3)"
  unfolding generate_name_def Let_def choice_def
  by (rule three_words_recognised) (auto simp: vocabulary_def)

text \<open>Claim C3 at the draws 0, 1 and 2.\<close>

theorem generated_is_recognised_witness:
  "(0::nat) < length actions \<and> (1::nat) < length adjectives \<and> (2::nat) < length nouns \<and>
   generate_name 0 1 2 = ''running-happy-rat'' \<and> is_generated_name ''running-happy-rat''"
proof -
  have b: "(0::nat) < length actions" "(1::nat) < length adjectives" "(2::nat) < length nouns"
    by (simp_all add: actions_def adjectives_def nouns_def)
  have g: "generate_name 0 1 2 = ''running-happy-rat''"
    by (simp add: generate_name_def choice_def actions_def adjectives_def nouns_def)
  from generated_is_recognised [OF b] b g show ?thesis by simp
qed

text \<open>
  Claim C8. None of the three vocabularies is empty; every word is a non-empty sequence of
  the letters \<open>a\<close> to \<open>z\<close>, so it contains neither the separator \<open>-\<close> nor whitespace.
\<close>

theorem vocabularies_lowercase:
  "actions \<noteq> [] \<and> adjectives \<noteq> [] \<and> nouns \<noteq> [] \<and>
   list_all (\<lambda>w. w \<noteq> [] \<and> list_all is_lower_alpha w) (actions @ adjectives @ nouns) \<and>
   list_all (\<lambda>w. CHR ''-'' \<notin> set w \<and> \<not> list_ex is_space w) (actions @ adjectives @ nouns)"
proof -
  have ne: "actions \<noteq> [] \<and> adjectives \<noteq> [] \<and> nouns \<noteq> []"
    by (simp add: actions_def adjectives_def nouns_def)
  have "list_all (\<lambda>w. CHR ''-'' \<notin> set w \<and> \<not> list_ex is_space w) (actions @ adjectives @ nouns)"
    using vocab_lower lower_not_dash unfolding list_all_iff list_ex_iff by blast
  with ne vocab_lower show ?thesis by simp
qed

section \<open>Ages\<close>

















section \<open>What the matchers accept\<close>

lemma in_re_seq: "m \<in> set (re_seq a b st) \<longleftrightarrow> (\<exists>st'. st' \<in> set (a st) \<and> m \<in> set (b st'))"
  by (auto simp: re_seq_def)

lemma in_re_alt: "m \<in> set (re_alt a b st) \<longleftrightarrow> m \<in> set (a st) \<or> m \<in> set (b st)"
  by (simp add: re_alt_def)

lemma in_re_eps: "m \<in> set (re_eps st) \<longleftrightarrow> m = st"
  by (auto simp: re_eps_def)

lemma in_re_opt: "m \<in> set (re_opt a st) \<longleftrightarrow> m \<in> set (a st) \<or> m = st"
  by (simp add: re_opt_def in_re_alt in_re_eps)

lemma in_re_bol: "m \<in> set (re_bol st) \<longleftrightarrow> pos st = 0 \<and> m = st"
  by (auto simp: re_bol_def)

lemma in_re_cls:
  "m \<in> set (re_cls P st) \<longleftrightarrow>
     (\<exists>x xs. rest st = x # xs \<and> P x \<and> m = st\<lparr>pos := Suc (pos st), rest := xs\<rparr>)"
  by (cases "rest st") (auto simp: re_cls_def)

lemma in_re_lit:
  "m \<in> set (re_lit c st) \<longleftrightarrow>
     (\<exists>xs. rest st = c # xs \<and> m = st\<lparr>pos := Suc (pos st), rest := xs\<rparr>)"
  by (auto simp: re_lit_def in_re_cls)

lemma in_re_group:
  "m \<in> set (re_group i a st) \<longleftrightarrow>
     (\<exists>st'. st' \<in> set (a st) \<and>
        m = st'\<lparr>grp := (grp st')(i \<mapsto> take (pos st' - pos st) (rest st))\<rparr>)"
  by (auto simp: re_group_def)

lemma re_cat_Nil: "re_cat [] = re_eps"
  by (simp add: re_cat_def)

lemma re_cat_Cons: "re_cat (a # as) = re_seq a (re_cat as)"
  by (simp add: re_cat_def)

lemma eats_trans: "eats a u b \<Longrightarrow> eats b v c \<Longrightarrow> eats a (u @ v) c"
  by (simp add: eats_def)

lemma eats_take: "eats st u m \<Longrightarrow> take (pos m - pos st) (rest st) = u"
  by (simp add: eats_def)

lemma re_plus_fuel_cls:
  "m \<in> set (re_plus_fuel n (re_cls P) st) \<Longrightarrow>
     \<exists>u. u \<noteq> [] \<and> list_all P u \<and> eats st u m \<and> grp m = grp st"
proof (induction n arbitrary: st)
  case 0
  then show ?case by simp
next
  case (Suc n)
  from Suc.prems obtain st' where st': "st' \<in> set (re_cls P st)"
    and m: "m \<in> set (re_plus_fuel n (re_cls P) st') \<or> m = st'"
    by auto
  from st' obtain x xs where x: "rest st = x # xs" "P x"
    "st' = st\<lparr>pos := Suc (pos st), rest := xs\<rparr>"
    by (auto simp: in_re_cls)
  then have e: "eats st [x] st'" "grp st' = grp st" by (simp_all add: eats_def)
  from m show ?case
  proof
    assume "m \<in> set (re_plus_fuel n (re_cls P) st')"
    from Suc.IH [OF this] obtain u where "u \<noteq> []" "list_all P u" "eats st' u m"
      "grp m = grp st'" by blast
    with e x(2) eats_trans [OF e(1)] have "[x] @ u \<noteq> [] \<and> list_all P ([x] @ u) \<and>
      eats st ([x] @ u) m \<and> grp m = grp st" by simp
    then show ?thesis by blast
  next
    assume "m = st'"
    with e x(2) have "[x] \<noteq> [] \<and> list_all P [x] \<and> eats st [x] m \<and> grp m = grp st" by simp
    then show ?thesis by blast
  qed
qed

lemma re_plus_cls:
  "m \<in> set (re_plus (re_cls P) st) \<Longrightarrow>
     \<exists>u. u \<noteq> [] \<and> list_all P u \<and> eats st u m \<and> grp m = grp st"
  unfolding re_plus_def by (rule re_plus_fuel_cls)

lemma line_start:
  assumes "m \<in> set (re_group 1 (re_alt re_bol (re_lit NL)) st)"
  shows "\<exists>g1. (g1 = [] \<and> pos st = 0 \<or> g1 = [NL]) \<and> eats st g1 m \<and>
           grp m = (grp st)(1 \<mapsto> g1)"
proof -
  from assms obtain st' where st': "st' \<in> set (re_alt re_bol (re_lit NL) st)"
    and m: "m = st'\<lparr>grp := (grp st')(1 \<mapsto> take (pos st' - pos st) (rest st))\<rparr>"
    unfolding in_re_group by blast
  from st' have "st' \<in> set (re_bol st) \<or> st' \<in> set (re_lit NL st)"
    by (simp only: in_re_alt)
  then show ?thesis
  proof
    assume "st' \<in> set (re_bol st)"
    then have "pos st = 0" "st' = st" by (simp_all add: in_re_bol)
    with m have "([] = [] \<and> pos st = 0 \<or> [] = [NL]) \<and> eats st [] m \<and>
           grp m = (grp st)(1 \<mapsto> [])" by (simp add: eats_def)
    then show ?thesis by (rule exI)
  next
    assume "st' \<in> set (re_lit NL st)"
    then obtain xs where "rest st = NL # xs" "st' = st\<lparr>pos := Suc (pos st), rest := xs\<rparr>"
      unfolding in_re_lit by blast
    with m have "([NL] = [] \<and> pos st = 0 \<or> [NL] = [NL]) \<and> eats st [NL] m \<and>
           grp m = (grp st)(1 \<mapsto> [NL])" by (simp add: eats_def)
    then show ?thesis by (rule exI)
  qed
qed

lemma quote_marker:
  assumes "m \<in> set (re_opt (re_group 2 (re_cat [re_cls (\<lambda>c. c = CHR ''>''), re_lit CHR '' ''])) st)"
  shows "\<exists>q. (q = [] \<or> q = ''> '') \<and> eats st q m \<and> grp m 1 = grp st 1"
proof -
  from assms have "m = st \<or>
    m \<in> set (re_group 2 (re_cat [re_cls (\<lambda>c. c = CHR ''>''), re_lit CHR '' '']) st)"
    by (auto simp only: in_re_opt)
  then show ?thesis
  proof
    assume "m = st"
    then have "([] = [] \<or> [] = ''> '') \<and> eats st [] m \<and> grp m 1 = grp st 1"
      by (simp add: eats_def)
    then show ?thesis by (rule exI)
  next
    assume "m \<in> set (re_group 2 (re_cat [re_cls (\<lambda>c. c = CHR ''>''), re_lit CHR '' '']) st)"
    then obtain s1 s2 where
      s1: "s1 \<in> set (re_cls (\<lambda>c. c = CHR ''>'') st)" and
      s2: "s2 \<in> set (re_lit CHR '' '' s1)" and
      m: "m = s2\<lparr>grp := (grp s2)(2 \<mapsto> take (pos s2 - pos st) (rest st))\<rparr>"
      unfolding in_re_group re_cat_Cons re_cat_Nil in_re_seq in_re_eps by blast
    from s1 obtain xs where xs: "rest st = CHR ''>'' # xs"
      "s1 = st\<lparr>pos := Suc (pos st), rest := xs\<rparr>"
      unfolding in_re_cls by blast
    from s2 obtain ys where ys: "rest s1 = CHR '' '' # ys"
      "s2 = s1\<lparr>pos := Suc (pos s1), rest := ys\<rparr>"
      unfolding in_re_lit by blast
    from xs ys m have "(''> '' = [] \<or> ''> '' = ''> '') \<and> eats st ''> '' m \<and> grp m 1 = grp st 1"
      by (simp add: eats_def)
    then show ?thesis by (rule exI)
  qed
qed

lemma pattern1_sound:
  assumes "m \<in> set (pattern1 \<lparr>pos = p, rest = r, grp = (\<lambda>_. None)\<rparr>)"
  shows "\<exists>g1 g3. (g1 = [] \<and> p = 0 \<or> g1 = [NL]) \<and> g3 \<noteq> [] \<and> NL \<notin> set g3 \<and>
           repl1 m = g1 @ g3 @ '':'' \<and> 0 < pos m \<and>
           (r = g1 @ g3 @ '':'' @ rest m \<or> r = g1 @ ''> '' @ g3 @ '':'' @ rest m)"
proof -
  define st0 where "st0 = \<lparr>pos = p, rest = r, grp = (\<lambda>_. None)\<rparr>"
  from assms obtain st1 st2 st3 where
    1: "st1 \<in> set (re_group 1 (re_alt re_bol (re_lit NL)) st0)" and
    2: "st2 \<in> set (re_opt (re_group 2 (re_cat [re_cls (\<lambda>c. c = CHR ''>''), re_lit CHR '' ''])) st1)" and
    3: "st3 \<in> set (re_group 3 (re_plus (re_cls re_dot)) st2)" and
    4: "m \<in> set (re_lit CHR '':'' st3)"
    unfolding pattern1_def st0_def [symmetric] re_cat_Cons re_cat_Nil in_re_seq in_re_eps
    by blast
  from line_start [OF 1] obtain g1 where g1': "g1 = [] \<and> pos st0 = 0 \<or> g1 = [NL]"
    "eats st0 g1 st1" "grp st1 = (grp st0)(1 \<mapsto> g1)"
    by blast
  then have g1: "g1 = [] \<and> p = 0 \<or> g1 = [NL]" "eats st0 g1 st1" "grp st1 1 = Some g1"
    by (simp_all add: st0_def)
  from quote_marker [OF 2] obtain q where q: "q = [] \<or> q = ''> ''" "eats st1 q st2" "grp st2 1 = grp st1 1"
    by blast
  from 3 obtain st3' where st3': "st3' \<in> set (re_plus (re_cls re_dot) st2)"
    "st3 = st3'\<lparr>grp := (grp st3')(3 \<mapsto> take (pos st3' - pos st2) (rest st2))\<rparr>"
    by (auto simp: in_re_group)
  from re_plus_cls [OF st3'(1)] obtain g3 where g3: "g3 \<noteq> []" "list_all re_dot g3"
    "eats st2 g3 st3'" "grp st3' = grp st2" by blast
  from st3' g3 have g3': "eats st2 g3 st3" "grp st3 1 = grp st2 1" "grp st3 3 = Some g3"
    by (simp_all add: eats_def)
  from 4 have c: "eats st3 '':'' m" "grp m = grp st3"
    by (auto simp: in_re_lit eats_def)
  have r: "r = g1 @ q @ g3 @ '':'' @ rest m" "pos m = p + length (g1 @ q @ g3 @ '':'')"
    using g1(2) q(2) g3'(1) c(1) by (simp_all add: eats_def st0_def)
  have repl: "repl1 m = g1 @ g3 @ '':''"
    using c(2) g3' q(3) g1(3) by (simp add: repl1_def expand_group_def)
  have nl: "NL \<notin> set g3" using g3(2) by (auto simp: list_all_iff re_dot_def)
  from q(1) r(1) have "r = g1 @ g3 @ '':'' @ rest m \<or> r = g1 @ ''> '' @ g3 @ '':'' @ rest m"
    by (elim disjE) simp_all
  with g1(1) g3(1) nl repl r(2) have "(g1 = [] \<and> p = 0 \<or> g1 = [NL]) \<and> g3 \<noteq> [] \<and>
      NL \<notin> set g3 \<and> repl1 m = g1 @ g3 @ '':'' \<and> 0 < pos m \<and>
      (r = g1 @ g3 @ '':'' @ rest m \<or> r = g1 @ ''> '' @ g3 @ '':'' @ rest m)"
    by simp
  then show ?thesis by blast
qed

section \<open>The first substitution, line by line\<close>

lemma str_split_hd_tl: "hd (str_split s c) # tl (str_split s c) = str_split s c"
  by (simp add: str_split_nonempty)

lemma split_append_line:
  "c \<notin> set w \<Longrightarrow> str_split (w @ s) c = (w @ hd (str_split s c)) # tl (str_split s c)"
  by (induction w) (auto simp: str_split_nonempty)

lemma str_join_Cons: "ls \<noteq> [] \<Longrightarrow> str_join c (l # ls) = l @ c # str_join c ls"
  by (cases ls) simp_all

lemma join_split: "str_join c (str_split s c) = s"
proof (induction s)
  case Nil
  show ?case by simp
next
  case (Cons x xs)
  obtain h t where ht: "str_split xs c = h # t"
    using str_split_nonempty [of xs c] by (cases "str_split xs c") auto
  show ?case
  proof (cases "x = c")
    case True
    then show ?thesis using Cons by (simp add: str_join_Cons str_split_nonempty)
  next
    case False
    then show ?thesis using Cons ht by (cases t) simp_all
  qed
qed

lemma split_inj:
  assumes "str_split s c = str_split t c"
  shows "s = t"
proof -
  have "s = str_join c (str_split s c)" by (simp only: join_split)
  also have "\<dots> = str_join c (str_split t c)" by (simp only: assms)
  also have "\<dots> = t" by (rule join_split)
  finally show ?thesis .
qed

lemma marker_stripped_refl: "marker_stripped l l"
  by (simp add: marker_stripped_def)

lemma rel_tl:
  assumes "list_all2 R (str_split t c) (str_split t' c)"
  shows "list_all2 R (tl (str_split t c)) (tl (str_split t' c))"
    and "R (hd (str_split t c)) (hd (str_split t' c))"
  using assms str_split_nonempty [of t c] str_split_nonempty [of t' c]
  by (cases "str_split t c"; cases "str_split t' c"; simp)+

lemma rel_line_prefix:
  assumes "NL \<notin> set w" "list_all2 marker_stripped (str_split t NL) (str_split t' NL)"
    "hd (str_split t' NL) = hd (str_split t NL)"
  shows "list_all2 marker_stripped (str_split (w @ t) NL) (str_split (w @ t') NL) \<and>
         hd (str_split (w @ t') NL) = hd (str_split (w @ t) NL)"
  using assms rel_tl(1) [OF assms(2)]
  by (simp add: split_append_line marker_stripped_refl)

lemma rel_line_marker:
  assumes "NL \<notin> set w" "CHR '':'' \<in> set w"
    "list_all2 marker_stripped (str_split t NL) (str_split t' NL)"
    "hd (str_split t' NL) = hd (str_split t NL)"
  shows "list_all2 marker_stripped (str_split (''> '' @ w @ t) NL) (str_split (w @ t') NL)"
proof -
  have n: "NL \<notin> set (''> '' @ w)" using assms(1) by (simp add: NL_def)
  have "str_split ((''> '' @ w) @ t) NL = ((''> '' @ w) @ hd (str_split t NL)) # tl (str_split t NL)"
    using n by (rule split_append_line)
  moreover have "str_split (w @ t') NL = (w @ hd (str_split t NL)) # tl (str_split t' NL)"
    using assms(1,4) by (simp add: split_append_line)
  moreover have "marker_stripped ((''> '' @ w) @ hd (str_split t NL)) (w @ hd (str_split t NL))"
    using assms(2) by (simp add: marker_stripped_def quoted_role_line_def)
  ultimately show ?thesis using rel_tl(1) [OF assms(3)] by simp
qed

lemma rel_newline:
  assumes "list_all2 marker_stripped (str_split t NL) (str_split t' NL)"
  shows "list_all2 marker_stripped (str_split (NL # t) NL) (str_split (NL # t') NL) \<and>
         hd (str_split (NL # t') NL) = hd (str_split (NL # t) NL)"
  using assms by (simp add: marker_stripped_refl)

lemma sub1_lines:
  "list_all2 marker_stripped (str_split s NL) (str_split (re_sub_from pattern1 repl1 p s) NL) \<and>
   (0 < p \<longrightarrow> hd (str_split (re_sub_from pattern1 repl1 p s) NL) = hd (str_split s NL))"
proof (induction "length s" arbitrary: p s rule: less_induct)
  case less
  define st0 where "st0 = \<lparr>pos = p, rest = s, grp = (\<lambda>_. None)\<rparr>"
  show ?case
  proof (cases "pattern1 st0")
    case Nil
    show ?thesis
    proof (cases s)
      case s: Nil
      have "re_sub_from pattern1 repl1 p [] = []"
        using Nil unfolding st0_def s by (subst re_sub_from.simps) simp
      then show ?thesis unfolding s by (simp add: marker_stripped_refl)
    next
      case s: (Cons c cs)
      have out: "re_sub_from pattern1 repl1 p (c # cs) =
          c # re_sub_from pattern1 repl1 (Suc p) cs"
        using Nil unfolding st0_def s by (subst re_sub_from.simps) simp
      have ih: "list_all2 marker_stripped (str_split cs NL)
          (str_split (re_sub_from pattern1 repl1 (Suc p) cs) NL)"
        "hd (str_split (re_sub_from pattern1 repl1 (Suc p) cs) NL) = hd (str_split cs NL)"
        using less [of cs "Suc p"] s by simp_all
      show ?thesis
      proof (cases "c = NL")
        case True
        with rel_newline [OF ih(1)] show ?thesis unfolding s out by simp
      next
        case False
        then have "NL \<notin> set [c]" by simp
        from rel_line_prefix [OF this ih] show ?thesis unfolding s out by simp
      qed
    qed
  next
    case (Cons m ms)
    then have "m \<in> set (pattern1 st0)" by simp
    from pattern1_sound [OF this [unfolded st0_def]] obtain g1 g3 where
      g1: "g1 = [] \<and> p = 0 \<or> g1 = [NL]" and g3: "g3 \<noteq> []" "NL \<notin> set g3" and
      repl: "repl1 m = g1 @ g3 @ '':''" and pos: "0 < pos m" and
      r: "s = g1 @ g3 @ '':'' @ rest m \<or> s = g1 @ ''> '' @ g3 @ '':'' @ rest m"
      by blast
    from r have len: "length (rest m) < length s" by auto
    have out: "re_sub_from pattern1 repl1 p s =
        g1 @ (g3 @ '':'') @ re_sub_from pattern1 repl1 (pos m) (rest m)"
      using Cons len repl unfolding st0_def by (subst re_sub_from.simps) simp
    define t' where "t' = re_sub_from pattern1 repl1 (pos m) (rest m)"
    have ih: "list_all2 marker_stripped (str_split (rest m) NL) (str_split t' NL)"
      "hd (str_split t' NL) = hd (str_split (rest m) NL)"
      using less [OF len, of "pos m"] pos unfolding t'_def by simp_all
    have w: "NL \<notin> set (g3 @ '':'')" "CHR '':'' \<in> set (g3 @ '':'')"
      using g3(2) by (simp_all add: NL_def)
    define s' where "s' = drop (length g1) s"
    have s: "s = g1 @ s'" using r unfolding s'_def by auto
    have line: "list_all2 marker_stripped (str_split s' NL) (str_split ((g3 @ '':'') @ t') NL)"
      using r
    proof
      assume "s = g1 @ g3 @ '':'' @ rest m"
      then have "s' = (g3 @ '':'') @ rest m" unfolding s'_def by simp
      with rel_line_prefix [OF w(1) ih] show ?thesis by simp
    next
      assume "s = g1 @ ''> '' @ g3 @ '':'' @ rest m"
      then have "s' = ''> '' @ (g3 @ '':'') @ rest m" unfolding s'_def by simp
      with rel_line_marker [OF w ih] show ?thesis by simp
    qed
    from g1 show ?thesis
    proof
      assume a: "g1 = [] \<and> p = 0"
      with line show ?thesis unfolding out t'_def [symmetric] unfolding s by simp
    next
      assume a: "g1 = [NL]"
      from rel_newline [OF line] a show ?thesis
        unfolding out t'_def [symmetric] unfolding s by simp
    qed
  qed
qed

lemma sub1_unchanged:
  assumes "\<forall>l \<in> set (str_split s NL). \<not> quoted_role_line l"
  shows "re_sub pattern1 repl1 s = s"
proof -
  have "list_all2 marker_stripped (str_split s NL) (str_split (re_sub pattern1 repl1 s) NL)"
    unfolding re_sub_def using sub1_lines [of s 0] by simp
  then have "list_all2 (\<lambda>l l'. l' = l) (str_split s NL) (str_split (re_sub pattern1 repl1 s) NL)"
    by (rule list.rel_mono_strong) (use assms in \<open>auto simp: marker_stripped_def\<close>)
  then have "list_all2 (=) (str_split (re_sub pattern1 repl1 s) NL) (str_split s NL)"
    by (simp add: list_all2_conv_all_nth)
  then have "str_split (re_sub pattern1 repl1 s) NL = str_split s NL"
    by (simp add: list_all2_eq)
  then show ?thesis by (rule split_inj)
qed

section \<open>Counting occurrences\<close>

lemma prefix_no_break: "b \<notin> set w \<Longrightarrow> prefix w (u @ b # v) \<longleftrightarrow> prefix w u"
proof
  assume b: "b \<notin> set w" and p: "prefix w (u @ b # v)"
  from p have "prefix w u \<or> (\<exists>us. w = u @ us \<and> prefix us (b # v))"
    by (simp add: prefix_append)
  then show "prefix w u"
  proof
    assume "\<exists>us. w = u @ us \<and> prefix us (b # v)"
    then obtain us where us: "w = u @ us" "prefix us (b # v)" by blast
    with b show ?thesis by (cases us) auto
  qed
next
  assume "prefix w u"
  then show "prefix w (u @ b # v)" by (rule prefix_prefix)
qed

lemma occ_Nil: "w \<noteq> [] \<Longrightarrow> occurrences w [] = 0"
  by simp

lemma occ_other_head: "w \<noteq> [] \<Longrightarrow> hd w \<noteq> c \<Longrightarrow> occurrences w (c # s) = occurrences w s"
  by (cases w) simp_all

lemma occ_break:
  assumes "b \<notin> set w" "w \<noteq> []"
  shows "occurrences w (u @ b # v) = occurrences w u + occurrences w v"
proof (induction u)
  case Nil
  from assms have "hd w \<noteq> b" by (cases w) auto
  with assms(2) show ?case by (simp add: occ_other_head del: occurrences.simps(2))
next
  case (Cons c u)
  have "prefix w ((c # u) @ b # v) \<longleftrightarrow> prefix w (c # u)"
    using assms(1) by (rule prefix_no_break)
  with Cons show ?case by simp
qed

lemma occ_prepend: "occurrences w s \<le> occurrences w (a @ s)"
  by (induction a) simp_all

lemma occ_self: "w \<noteq> [] \<Longrightarrow> 1 \<le> occurrences w (w @ b)"
  by (cases w) simp_all

lemma occ_two:
  assumes "w \<noteq> []"
  shows "2 \<le> occurrences w (w @ b) \<or> \<not> (\<exists>c d b'. w @ b = c # d @ w @ b')"
proof (cases "\<exists>c d b'. w @ b = c # d @ w @ b'")
  case True
  then obtain c d b' where e: "w @ b = c # d @ w @ b'" by blast
  have "prefix w (c # d @ w @ b')" unfolding e [symmetric] by simp
  then have "occurrences w (c # d @ w @ b') = 1 + occurrences w (d @ w @ b')" by simp
  moreover have "1 \<le> occurrences w (d @ w @ b')"
    using occ_self [OF assms, of b'] occ_prepend [of w "w @ b'" d] by simp
  ultimately show ?thesis unfolding e by simp
next
  case False
  then show ?thesis by simp
qed

lemma unique_position:
  assumes one: "occurrences w y = 1" and w: "w \<noteq> []"
    and y1: "y = a @ w @ b" and y2: "y = a' @ w @ b'"
  shows "a = a'"
proof -
  have aux: "False" if l: "length p < length q" and e: "p @ w @ r = q @ w @ r'"
    and o: "occurrences w (p @ w @ r) = 1" for p q r r'
  proof -
    from e have "take (length p) (p @ w @ r) = take (length p) (q @ w @ r')" by simp
    with l have "p = take (length p) q" by simp
    then have "q = p @ drop (length p) q" by (metis append_take_drop_id)
    moreover from l have "drop (length p) q \<noteq> []" by simp
    ultimately obtain us where us: "q = p @ us" "us \<noteq> []" by blast
    then obtain c d where cd: "us = c # d" by (cases us) auto
    from e us cd have "w @ r = c # d @ w @ r'" by simp
    with occ_two [OF w, of r] have "2 \<le> occurrences w (w @ r)" by blast
    with occ_prepend [of w "w @ r" p] o show False by simp
  qed
  show ?thesis
  proof (cases "length a = length a'")
    case True
    with y1 y2 show ?thesis by simp
  next
    case False
    then consider "length a < length a'" | "length a' < length a" by linarith
    then show ?thesis
    proof cases
      case 1
      from aux [OF 1, of b b'] y1 y2 one show ?thesis by simp
    next
      case 2
      from aux [OF 2, of b' b] y1 y2 one show ?thesis by simp
    qed
  qed
qed

lemma occ_join:
  assumes "c \<notin> set w" "w \<noteq> []"
  shows "occurrences w (str_join c ls) = sum_list (map (occurrences w) ls)"
proof (induction ls)
  case Nil
  then show ?case using assms(2) by simp
next
  case (Cons l ls)
  show ?case
  proof (cases "ls = []")
    case True
    then show ?thesis by simp
  next
    case False
    then have "str_join c (l # ls) = l @ c # str_join c ls" by (rule str_join_Cons)
    with occ_break [OF assms, of l "str_join c ls"] Cons show ?thesis by simp
  qed
qed

lemma occ_lines:
  assumes "c \<notin> set w" "w \<noteq> []"
  shows "occurrences w s = sum_list (map (occurrences w) (str_split s c))"
  using occ_join [OF assms, of "str_split s c"] by (simp add: join_split)

lemma occ_marker:
  assumes "marker_stripped l l'" "w \<noteq> []" "hd w \<noteq> CHR ''>''" "hd w \<noteq> CHR '' ''"
  shows "occurrences w l' = occurrences w l"
proof -
  from assms(1) have "l' = l \<or> l = ''> '' @ l'" by (auto simp: marker_stripped_def)
  then show ?thesis
  proof
    assume "l = ''> '' @ l'"
    then have "occurrences w l = occurrences w (CHR ''>'' # CHR '' '' # l')" by simp
    also have "\<dots> = occurrences w (CHR '' '' # l')"
      using assms(2,3) by (rule occ_other_head)
    also have "\<dots> = occurrences w l'"
      using assms(2,4) by (rule occ_other_head)
    finally show ?thesis by simp
  qed simp
qed

lemma occ_rel_lines:
  assumes "list_all2 marker_stripped ls ls'" "w \<noteq> []" "hd w \<noteq> CHR ''>''" "hd w \<noteq> CHR '' ''"
  shows "sum_list (map (occurrences w) ls') = sum_list (map (occurrences w) ls)"
  using assms(1)
proof (induction rule: list_all2_induct)
  case Nil
  show ?case by simp
next
  case (Cons l ls l' ls')
  with occ_marker [OF Cons.hyps(1) assms(2-4)] show ?case by simp
qed

lemma sub1_relates_lines:
  "list_all2 marker_stripped (str_split s NL) (str_split (re_sub pattern1 repl1 s) NL)"
  unfolding re_sub_def using sub1_lines [of s 0] by simp

lemma occ_sub1:
  assumes "NL \<notin> set w" "w \<noteq> []" "hd w \<noteq> CHR ''>''" "hd w \<noteq> CHR '' ''"
  shows "occurrences w (re_sub pattern1 repl1 s) = occurrences w s"
  using occ_rel_lines [OF sub1_relates_lines assms(2-4), of s]
  by (simp add: occ_lines [OF assms(1,2), symmetric])

section \<open>Lines and indentation\<close>

lemma NL_linebreak: "is_linebreak NL" and NL_space: "is_space NL" and NL_not_CR: "NL \<noteq> CHR 0x0D"
  by (simp_all add: is_linebreak_def is_space_def NL_def)

lemma CR_linebreak: "is_linebreak (CHR 0x0D)"
  by (simp add: is_linebreak_def)

lemma splitlines_from_newline:
  "splitlines_from cur (NL # v) = (cur @ [NL]) # splitlines_from [] v"
  by (cases v) (simp_all add: NL_linebreak NL_not_CR)

lemma splitlines_from_append_newline:
  "splitlines_from cur (u @ NL # v) = splitlines_from cur (u @ [NL]) @ splitlines_from [] v"
proof (induction "length u" arbitrary: cur u rule: less_induct)
  case less
  show ?case
  proof (cases u)
    case Nil
    then show ?thesis by (simp add: splitlines_from_newline)
  next
    case u: (Cons c u')
    show ?thesis
    proof (cases u')
      case Nil
      show ?thesis
        unfolding u Nil using NL_def less [of "[]" "[]"]
        by (simp add: splitlines_from_newline)
    next
      case (Cons d us)
      have 1: "splitlines_from [] (us @ NL # v) =
          splitlines_from [] (us @ [NL]) @ splitlines_from [] v"
        using less [of us "[]"] u Cons by simp
      have 2: "splitlines_from k (d # us @ NL # v) =
          splitlines_from k (d # us @ [NL]) @ splitlines_from [] v" for k
        using less [of "d # us" k] u Cons by simp
      show ?thesis unfolding u Cons using 1 2 by simp
    qed
  qed
qed

lemma indent_append_newline:
  "indent (u @ NL # v) pfx = indent (u @ [NL]) pfx @ indent v pfx"
  unfolding indent_def splitlines_def by (subst splitlines_from_append_newline) simp

lemma splitlines_from_ends_newline:
  "\<exists>ls l. splitlines_from cur (u @ [NL]) = ls @ [l @ [NL]]"
proof (induction "length u" arbitrary: cur u rule: less_induct)
  case less
  show ?case
  proof (cases u)
    case Nil
    have "splitlines_from cur ([] @ [NL]) = [] @ [cur @ [NL]]" by simp
    then show ?thesis unfolding Nil by (intro exI)
  next
    case u: (Cons c u')
    show ?thesis
    proof (cases u')
      case Nil
      have "splitlines_from cur ((c # []) @ [NL]) = [] @ [(cur @ [c]) @ [NL]] \<or>
            splitlines_from cur ((c # []) @ [NL]) = [cur @ [c]] @ [[] @ [NL]]"
        by (simp add: NL_def)
      then show ?thesis unfolding u Nil by (elim disjE) (intro exI, assumption)+
    next
      case (Cons d us)
      from less [of us "[]"] u Cons obtain ls1 l1 where
        1: "splitlines_from [] (us @ [NL]) = ls1 @ [l1 @ [NL]]" by auto
      from less [of "d # us" "[]"] u Cons obtain ls2 l2 where
        2: "splitlines_from [] (d # us @ [NL]) = ls2 @ [l2 @ [NL]]" by auto
      from less [of "d # us" "cur @ [c]"] u Cons obtain ls3 l3 where
        3: "splitlines_from (cur @ [c]) (d # us @ [NL]) = ls3 @ [l3 @ [NL]]" by auto
      have "splitlines_from cur ((c # d # us) @ [NL]) = ((cur @ [c, d]) # ls1) @ [l1 @ [NL]] \<or>
            splitlines_from cur ((c # d # us) @ [NL]) = ((cur @ [c]) # ls2) @ [l2 @ [NL]] \<or>
            splitlines_from cur ((c # d # us) @ [NL]) = ls3 @ [l3 @ [NL]]"
        using 1 2 3 by simp
      then show ?thesis unfolding u Cons by (elim disjE) (intro exI, assumption)+
    qed
  qed
qed

lemma indent_ends_newline: "\<exists>Y. indent (u @ [NL]) pfx = Y @ [NL]"
proof -
  from splitlines_from_ends_newline [of "[]" u] obtain ls l where
    "splitlines (u @ [NL]) = ls @ [l @ [NL]]" unfolding splitlines_def by blast
  then have "indent (u @ [NL]) pfx =
      (concat (map (\<lambda>line. if \<not> isspace line then pfx @ line else line) ls) @
       (if \<not> isspace (l @ [NL]) then pfx @ l else l)) @ [NL]"
    by (simp add: indent_def)
  then show ?thesis by blast
qed

lemma splitlines_from_plain:
  "\<not> list_ex is_linebreak w \<Longrightarrow> splitlines_from cur (w @ s) = splitlines_from (cur @ w) s"
proof (induction w arbitrary: cur)
  case Nil
  show ?case by simp
next
  case (Cons c w)
  then have c: "\<not> is_linebreak c" "c \<noteq> CHR 0x0D" using CR_linebreak by auto
  from Cons have ih: "splitlines_from (cur @ [c]) (w @ s) = splitlines_from (cur @ c # w) s"
    by simp
  show ?case
  proof (cases "w @ s")
    case Nil
    then show ?thesis by simp
  next
    case (Cons d rest)
    then have "splitlines_from cur ((c # w) @ s) = splitlines_from (cur @ [c]) (w @ s)"
      using c by simp
    with ih show ?thesis by simp
  qed
qed

lemma splitlines_from_first:
  "cur \<noteq> [] \<Longrightarrow> \<exists>x rest. splitlines_from cur s = (cur @ x) # rest"
proof (induction cur s rule: splitlines_from.induct)
  case (1 cur)
  then show ?case by simp
next
  case (2 cur c)
  then show ?case by simp
next
  case (3 cur c d cs)
  show ?case
  proof (cases "(c = CHR 0x0D \<and> d = CHR 0x0A) \<or> is_linebreak c")
    case True
    then have "splitlines_from cur (c # d # cs) = (cur @ [c, d]) # splitlines_from [] cs \<or>
               splitlines_from cur (c # d # cs) = (cur @ [c]) # splitlines_from [] (d # cs)"
      by auto
    then show ?thesis by blast
  next
    case False
    with 3 obtain x rest where "splitlines_from (cur @ [c]) (d # cs) = ((cur @ [c]) @ x) # rest"
      by auto
    with False CR_linebreak have "splitlines_from cur (c # d # cs) = (cur @ (c # x)) # rest"
      by auto
    then show ?thesis by blast
  qed
qed

lemma indent_first_line:
  assumes "\<not> list_ex is_linebreak w" "\<not> list_all is_space w"
  shows "\<exists>B'. indent (w @ B) pfx = pfx @ w @ B'"
proof -
  from assms(2) have w: "w \<noteq> []" by auto
  have "splitlines (w @ B) = splitlines_from w B"
    unfolding splitlines_def using splitlines_from_plain [OF assms(1), of "[]" B] by simp
  with splitlines_from_first [OF w, of B] obtain x rest where
    s: "splitlines (w @ B) = (w @ x) # rest" by auto
  have "\<not> isspace (w @ x)" using assms(2) by (simp add: isspace_def)
  with s have "indent (w @ B) pfx =
      pfx @ w @ (x @ concat (map (\<lambda>line. if \<not> isspace line then pfx @ line else line) rest))"
    by (simp add: indent_def)
  then show ?thesis by blast
qed

lemma concat_splitlines_from: "concat (splitlines_from cur s) = cur @ s"
  by (induction cur s rule: splitlines_from.induct) simp_all

lemma splitlines_from_breaks:
  "list_all (\<lambda>l. l \<noteq> [] \<and> is_linebreak (last l)) (butlast (splitlines_from cur s))"
proof (induction cur s rule: splitlines_from.induct)
  case (1 cur)
  show ?case by simp
next
  case (2 cur c)
  show ?case by simp
next
  case (3 cur c d cs)
  then show ?case by (simp add: NL_def [symmetric] NL_linebreak)
qed

lemma splitlines_from_nonempty: "list_all (\<lambda>l. l \<noteq> []) (splitlines_from cur s)"
  by (induction cur s rule: splitlines_from.induct) simp_all

lemma occ_concat:
  assumes "w \<noteq> []"
  shows "list_all (\<lambda>l. l \<noteq> [] \<and> last l \<notin> set w) (butlast ls) \<Longrightarrow>
         occurrences w (concat ls) = sum_list (map (occurrences w) ls)"
proof (induction ls)
  case Nil
  show ?case using assms by simp
next
  case (Cons l ls)
  show ?case
  proof (cases "ls = []")
    case True
    then show ?thesis using assms by simp
  next
    case False
    with Cons.prems have l: "l \<noteq> []" "last l \<notin> set w"
      and r: "list_all (\<lambda>l. l \<noteq> [] \<and> last l \<notin> set w) (butlast ls)" by simp_all
    from l(1) have e: "l = butlast l @ [last l]" by simp
    have "occurrences w (concat (l # ls)) = occurrences w (butlast l @ last l # concat ls)"
      using e by (metis append_Cons append_Nil append_assoc concat.simps(2))
    also have "\<dots> = occurrences w (butlast l) + occurrences w (concat ls)"
      using l(2) assms by (rule occ_break)
    also have "occurrences w (butlast l) = occurrences w l"
      using occ_break [OF l(2) assms, of "butlast l" "[]"] e assms by simp
    finally show ?thesis using Cons.IH [OF r] by simp
  qed
qed

lemma occ_prefixed: "w \<noteq> [] \<Longrightarrow> hd w \<notin> set pfx \<Longrightarrow> occurrences w (pfx @ l) = occurrences w l"
  by (induction pfx) (simp_all add: occ_other_head del: occurrences.simps)

lemma occ_indent:
  assumes w: "w \<noteq> []" and nb: "\<not> list_ex is_linebreak w" and hd: "hd w \<notin> set pfx"
  shows "occurrences w (indent z pfx) = occurrences w z"
proof -
  define f where "f = (\<lambda>line. if \<not> isspace line then pfx @ line else line)"
  define ls where "ls = splitlines z"
  have b: "list_all (\<lambda>l. l \<noteq> [] \<and> is_linebreak (last l)) (butlast ls)"
    unfolding ls_def splitlines_def by (rule splitlines_from_breaks)
  have ne: "list_all (\<lambda>l. l \<noteq> []) ls"
    unfolding ls_def splitlines_def by (rule splitlines_from_nonempty)
  have b1: "list_all (\<lambda>l. l \<noteq> [] \<and> last l \<notin> set w) (butlast ls)"
    using b nb by (auto simp: list_all_iff list_ex_iff)
  have fl: "f l \<noteq> [] \<and> last (f l) = last l" if "l \<noteq> []" for l
    using that by (simp add: f_def)
  have b2: "list_all (\<lambda>l. l \<noteq> [] \<and> last l \<notin> set w) (butlast (map f ls))"
    using b1 fl by (auto simp: map_butlast [symmetric] list_all_iff)
  have fo: "occurrences w (f l) = occurrences w l" for l
    using occ_prefixed [OF w hd] by (simp add: f_def)
  have "occurrences w (indent z pfx) = occurrences w (concat (map f ls))"
    by (simp add: indent_def f_def ls_def)
  also have "\<dots> = sum_list (map (occurrences w) (map f ls))"
    using w b2 by (rule occ_concat)
  also have "\<dots> = sum_list (map (occurrences w) ls)"
    by (simp add: comp_def fo)
  also have "\<dots> = occurrences w (concat ls)"
    using occ_concat [OF w b1] by simp
  also have "concat ls = z"
    unfolding ls_def splitlines_def using concat_splitlines_from [of "[]" z] by simp
  finally show ?thesis .
qed

section \<open>The second substitution\<close>

lemma re_lits_Nil: "re_lits [] = re_eps"
  by (simp add: re_lits_def re_cat_Nil)

lemma re_lits_Cons: "re_lits (c # cs) = re_seq (re_lit c) (re_lits cs)"
  by (simp add: re_lits_def re_cat_Cons)

lemma re_lits_sound: "m \<in> set (re_lits cs st) \<Longrightarrow> eats st cs m \<and> grp m = grp st"
proof (induction cs arbitrary: st)
  case Nil
  then show ?case by (simp add: re_lits_Nil in_re_eps eats_def)
next
  case (Cons c cs)
  from Cons.prems obtain st' where st': "st' \<in> set (re_lit c st)" and m: "m \<in> set (re_lits cs st')"
    unfolding re_lits_Cons in_re_seq by blast
  from st' have e: "eats st [c] st'" "grp st' = grp st"
    by (auto simp: in_re_lit eats_def)
  from Cons.IH [OF m] e eats_trans [OF e(1), of cs m] show ?case by simp
qed

lemma re_star_cls:
  assumes "m \<in> set (re_star (re_cls P) st)"
  shows "\<exists>u. list_all P u \<and> eats st u m \<and> grp m = grp st"
proof -
  from assms have "m \<in> set (re_plus (re_cls P) st) \<or> m = st"
    by (simp add: re_star_def in_re_alt in_re_eps)
  then show ?thesis
  proof
    assume "m \<in> set (re_plus (re_cls P) st)"
    from re_plus_cls [OF this] show ?thesis by blast
  next
    assume "m = st"
    then have "list_all P [] \<and> eats st [] m \<and> grp m = grp st" by (simp add: eats_def)
    then show ?thesis by (rule exI)
  qed
qed

lemma blank_run:
  assumes "m \<in> set (re_group 4 (re_cat [re_lit NL, re_star (re_cls is_space)]) st)"
  shows "\<exists>w. list_all is_space w \<and> eats st (NL # w) m \<and> (\<forall>i. i \<noteq> 4 \<longrightarrow> grp m i = grp st i)"
proof -
  from assms obtain s1 s2 where s1: "s1 \<in> set (re_lit NL st)"
    and s2: "s2 \<in> set (re_star (re_cls is_space) s1)"
    and m: "m = s2\<lparr>grp := (grp s2)(4 \<mapsto> take (pos s2 - pos st) (rest st))\<rparr>"
    unfolding in_re_group re_cat_Cons re_cat_Nil in_re_seq in_re_eps by blast
  from s1 have e1: "eats st [NL] s1" "grp s1 = grp st"
    by (auto simp: in_re_lit eats_def)
  from re_star_cls [OF s2] obtain w where w: "list_all is_space w" "eats s1 w s2"
    "grp s2 = grp s1" by blast
  from eats_trans [OF e1(1) w(2)] have "eats st (NL # w) s2" by simp
  with m w e1 have "list_all is_space w \<and> eats st (NL # w) m \<and>
      (\<forall>i. i \<noteq> 4 \<longrightarrow> grp m i = grp st i)"
    by (simp add: eats_def)
  then show ?thesis by (rule exI)
qed

lemma blank_runs_fuel:
  "m \<in> set (re_plus_fuel n (re_group 4 (re_cat [re_lit NL, re_star (re_cls is_space)])) st) \<Longrightarrow>
     \<exists>w. list_all is_space w \<and> eats st (NL # w) m \<and> (\<forall>i. i \<noteq> 4 \<longrightarrow> grp m i = grp st i)"
proof (induction n arbitrary: st)
  case 0
  then show ?case by simp
next
  case (Suc n)
  let ?b = "re_group 4 (re_cat [re_lit NL, re_star (re_cls is_space)])"
  from Suc.prems obtain st' where st': "st' \<in> set (?b st)"
    and m: "m \<in> set (re_plus_fuel n ?b st') \<or> m = st'"
    by auto
  from blank_run [OF st'] obtain w where w: "list_all is_space w" "eats st (NL # w) st'"
    "\<forall>i. i \<noteq> 4 \<longrightarrow> grp st' i = grp st i" by blast
  from m show ?case
  proof
    assume "m = st'"
    with w show ?thesis by blast
  next
    assume "m \<in> set (re_plus_fuel n ?b st')"
    from Suc.IH [OF this] obtain w' where w': "list_all is_space w'" "eats st' (NL # w') m"
      "\<forall>i. i \<noteq> 4 \<longrightarrow> grp m i = grp st' i" by blast
    from eats_trans [OF w(2) w'(2)] have "eats st (NL # (w @ NL # w')) m" by simp
    moreover have "list_all is_space (w @ NL # w')" using w(1) w'(1) NL_space by simp
    moreover have "\<forall>i. i \<noteq> 4 \<longrightarrow> grp m i = grp st i" using w(3) w'(3) by simp
    ultimately show ?thesis by blast
  qed
qed

lemma heading_block:
  assumes "m \<in> set (re_cat
               [re_lits ''   '',
                re_plus (re_cls (\<lambda>c. c = CHR ''#'' \<or> c = CHR '' '')),
                re_group 3 (re_plus (re_cls re_dot)),
                re_plus (re_group 4 (re_cat [re_lit NL, re_star (re_cls is_space)]))] st)"
  shows "\<exists>h g3 w. h \<noteq> [] \<and> list_all (\<lambda>c. c = CHR ''#'' \<or> c = CHR '' '') h \<and> g3 \<noteq> [] \<and>
           NL \<notin> set g3 \<and> list_all is_space w \<and> eats st (''   '' @ h @ g3 @ NL # w) m"
proof -
  from assms obtain s1 s2 s3 where
    1: "s1 \<in> set (re_lits ''   '' st)" and
    2: "s2 \<in> set (re_plus (re_cls (\<lambda>c. c = CHR ''#'' \<or> c = CHR '' '')) s1)" and
    3: "s3 \<in> set (re_group 3 (re_plus (re_cls re_dot)) s2)" and
    4: "m \<in> set (re_plus (re_group 4 (re_cat [re_lit NL, re_star (re_cls is_space)])) s3)"
    unfolding re_cat_Cons re_cat_Nil in_re_seq in_re_eps by blast
  from re_lits_sound [OF 1] have e1: "eats st ''   '' s1" by simp
  from re_plus_cls [OF 2] obtain h where h: "h \<noteq> []"
    "list_all (\<lambda>c. c = CHR ''#'' \<or> c = CHR '' '') h" "eats s1 h s2" by blast
  from 3 obtain s3' where s3': "s3' \<in> set (re_plus (re_cls re_dot) s2)"
    "s3 = s3'\<lparr>grp := (grp s3')(3 \<mapsto> take (pos s3' - pos s2) (rest s2))\<rparr>"
    unfolding in_re_group by blast
  from re_plus_cls [OF s3'(1)] obtain g3 where g3: "g3 \<noteq> []" "list_all re_dot g3"
    "eats s2 g3 s3'" by blast
  from g3(3) s3'(2) have e3: "eats s2 g3 s3" by (simp add: eats_def)
  from 4 obtain w where w: "list_all is_space w" "eats s3 (NL # w) m"
    unfolding re_plus_def using blank_runs_fuel by blast
  have nl: "NL \<notin> set g3" using g3(2) by (auto simp: list_all_iff re_dot_def)
  from eats_trans [OF e1 eats_trans [OF h(3) eats_trans [OF e3 w(2)]]]
  have "eats st (''   '' @ h @ g3 @ NL # w) m" by simp
  with h(1,2) g3(1) nl w(1) show ?thesis by blast
qed

lemma pattern2_sound:
  assumes "m \<in> set (pattern2 \<lparr>pos = p, rest = r, grp = (\<lambda>_. None)\<rparr>)"
  shows "\<exists>g1 G. (g1 = [] \<and> p = 0 \<or> g1 = [NL]) \<and> r = g1 @ G @ ''   User:'' @ rest m \<and>
           (G = [] \<or>
            (\<exists>h g3 w. G = ''   '' @ h @ g3 @ NL # w \<and> h \<noteq> [] \<and>
               list_all (\<lambda>c. c = CHR ''#'' \<or> c = CHR '' '') h \<and> g3 \<noteq> [] \<and> NL \<notin> set g3 \<and>
               list_all is_space w))"
proof -
  define st0 where "st0 = \<lparr>pos = p, rest = r, grp = (\<lambda>_. None)\<rparr>"
  let ?hb = "re_cat
               [re_lits ''   '',
                re_plus (re_cls (\<lambda>c. c = CHR ''#'' \<or> c = CHR '' '')),
                re_group 3 (re_plus (re_cls re_dot)),
                re_plus (re_group 4 (re_cat [re_lit NL, re_star (re_cls is_space)]))]"
  from assms obtain st1 st2 where
    1: "st1 \<in> set (re_group 1 (re_alt re_bol (re_lit NL)) st0)" and
    2: "st2 \<in> set (re_opt (re_group 2 ?hb) st1)" and
    3: "m \<in> set (re_lits ''   User:'' st2)"
    unfolding pattern2_def st0_def [symmetric] re_cat_Cons [of _ "[_, _]"] re_cat_Cons [of _ "[_]"]
      re_cat_Cons [of _ "[]"] re_cat_Nil in_re_seq in_re_eps
    by blast
  from line_start [OF 1] obtain g1 where g1': "g1 = [] \<and> pos st0 = 0 \<or> g1 = [NL]"
    "eats st0 g1 st1" by blast
  then have g1: "g1 = [] \<and> p = 0 \<or> g1 = [NL]" by (simp add: st0_def)
  from re_lits_sound [OF 3] have e3: "eats st2 ''   User:'' m" by simp
  from 2 have "st2 = st1 \<or> st2 \<in> set (re_group 2 ?hb st1)"
    by (auto simp only: in_re_opt)
  then have "\<exists>G. eats st1 G st2 \<and> (G = [] \<or>
            (\<exists>h g3 w. G = ''   '' @ h @ g3 @ NL # w \<and> h \<noteq> [] \<and>
               list_all (\<lambda>c. c = CHR ''#'' \<or> c = CHR '' '') h \<and> g3 \<noteq> [] \<and> NL \<notin> set g3 \<and>
               list_all is_space w))"
  proof
    assume "st2 = st1"
    then have "eats st1 [] st2" by (simp add: eats_def)
    then show ?thesis by blast
  next
    assume "st2 \<in> set (re_group 2 ?hb st1)"
    then obtain s' where s': "s' \<in> set (?hb st1)"
      "st2 = s'\<lparr>grp := (grp s')(2 \<mapsto> take (pos s' - pos st1) (rest st1))\<rparr>"
      unfolding in_re_group by blast
    from heading_block [OF s'(1)] obtain h g3 w where
      hb: "h \<noteq> []" "list_all (\<lambda>c. c = CHR ''#'' \<or> c = CHR '' '') h" "g3 \<noteq> []"
        "NL \<notin> set g3" "list_all is_space w" "eats st1 (''   '' @ h @ g3 @ NL # w) s'"
      by blast
    from hb(6) s'(2) have "eats st1 (''   '' @ h @ g3 @ NL # w) st2" by (simp add: eats_def)
    with hb(1-5) show ?thesis by blast
  qed
  then obtain G where G: "eats st1 G st2" "G = [] \<or>
            (\<exists>h g3 w. G = ''   '' @ h @ g3 @ NL # w \<and> h \<noteq> [] \<and>
               list_all (\<lambda>c. c = CHR ''#'' \<or> c = CHR '' '') h \<and> g3 \<noteq> [] \<and> NL \<notin> set g3 \<and>
               list_all is_space w)" by blast
  from eats_trans [OF g1'(2) eats_trans [OF G(1) e3]]
  have "r = g1 @ G @ ''   User:'' @ rest m" by (simp add: eats_def st0_def)
  with g1 G(2) show ?thesis by blast
qed

lemma sub_no_match:
  "(\<forall>u v. s = u @ v \<longrightarrow> pat \<lparr>pos = p + length u, rest = v, grp = (\<lambda>_. None)\<rparr> = []) \<Longrightarrow>
     re_sub_from pat repl p s = s"
proof (induction s arbitrary: p)
  case Nil
  then have "pat \<lparr>pos = p, rest = [], grp = (\<lambda>_. None)\<rparr> = []" by simp
  then show ?case by (subst re_sub_from.simps) simp
next
  case (Cons c cs)
  from Cons.prems have 0: "pat \<lparr>pos = p, rest = c # cs, grp = (\<lambda>_. None)\<rparr> = []"
    by (metis add.right_neutral append_Nil list.size(3))
  have "\<forall>u v. cs = u @ v \<longrightarrow> pat \<lparr>pos = Suc p + length u, rest = v, grp = (\<lambda>_. None)\<rparr> = []"
  proof (intro allI impI)
    fix u v
    assume "cs = u @ v"
    then have "c # cs = (c # u) @ v" by simp
    with Cons.prems have "pat \<lparr>pos = p + length (c # u), rest = v, grp = (\<lambda>_. None)\<rparr> = []"
      by blast
    then show "pat \<lparr>pos = Suc p + length u, rest = v, grp = (\<lambda>_. None)\<rparr> = []" by simp
  qed
  from Cons.IH [OF this] have "re_sub_from pat repl (Suc p) cs = cs" .
  with 0 show ?case by (subst re_sub_from.simps) simp
qed

lemma sub2_changed_shape:
  "re_sub_from pattern2 repl2 p s \<noteq> s \<Longrightarrow>
     \<exists>A B. re_sub_from pattern2 repl2 p s = A @ NL # ''.. chat::'' @ [NL, NL] @ ''   User:'' @ B"
proof (induction s arbitrary: p)
  case Nil
  show ?case
  proof (cases "pattern2 \<lparr>pos = p, rest = [], grp = (\<lambda>_. None)\<rparr>")
    case Nil
    then have "re_sub_from pattern2 repl2 p [] = []" by (subst re_sub_from.simps) simp
    with Nil.prems show ?thesis by simp
  next
    case (Cons m ms)
    then have "re_sub_from pattern2 repl2 p [] =
       (expand_group m 1 @ expand_group m 3 @ [NL]) @ NL # ''.. chat::'' @ [NL, NL] @ ''   User:'' @ []"
      by (subst re_sub_from.simps) (simp add: repl2_def)
    then show ?thesis by (intro exI)
  qed
next
  case (Cons c cs)
  show ?case
  proof (cases "pattern2 \<lparr>pos = p, rest = c # cs, grp = (\<lambda>_. None)\<rparr>")
    case Nil
    then have out: "re_sub_from pattern2 repl2 p (c # cs) = c # re_sub_from pattern2 repl2 (Suc p) cs"
      by (subst re_sub_from.simps) simp
    with Cons.prems have "re_sub_from pattern2 repl2 (Suc p) cs \<noteq> cs" by simp
    from Cons.IH [OF this] obtain A B where
      "re_sub_from pattern2 repl2 (Suc p) cs = A @ NL # ''.. chat::'' @ [NL, NL] @ ''   User:'' @ B"
      by blast
    with out have "re_sub_from pattern2 repl2 p (c # cs) =
      (c # A) @ NL # ''.. chat::'' @ [NL, NL] @ ''   User:'' @ B" by simp
    then show ?thesis by (intro exI)
  next
    case m: (Cons m ms)
    have "\<exists>B. re_sub_from pattern2 repl2 p (c # cs) = repl2 m @ B"
      using m by (subst re_sub_from.simps) simp
    then obtain B where "re_sub_from pattern2 repl2 p (c # cs) = repl2 m @ B" by blast
    then have "re_sub_from pattern2 repl2 p (c # cs) =
       (expand_group m 1 @ expand_group m 3 @ [NL]) @ NL # ''.. chat::'' @ [NL, NL] @ ''   User:'' @ B"
      by (simp add: repl2_def)
    then show ?thesis by (intro exI)
  qed
qed

section \<open>A text that carries its directive\<close>

lemma split_append_sep: "str_split (u @ c # v) c = str_split u c @ str_split v c"
  by (induction u) (auto simp: str_split_nonempty)

lemma join_append:
  "xs \<noteq> [] \<Longrightarrow> ys \<noteq> [] \<Longrightarrow> str_join c (xs @ ys) = str_join c xs @ c # str_join c ys"
proof (induction xs)
  case Nil
  then show ?case by simp
next
  case (Cons x xs)
  show ?case
  proof (cases "xs = []")
    case True
    with Cons.prems show ?thesis by (simp add: str_join_Cons)
  next
    case False
    with Cons show ?thesis by (simp add: str_join_Cons)
  qed
qed

lemma line_chars: "l \<in> set (str_split s c) \<Longrightarrow> set l \<subseteq> set s"
proof (induction s arbitrary: l)
  case Nil
  then show ?case by simp
next
  case (Cons x xs)
  obtain h t where ht: "str_split xs c = h # t"
    using str_split_nonempty [of xs c] by (cases "str_split xs c") auto
  from Cons.IH [of h] Cons.IH ht have ih: "set h \<subseteq> set xs" "\<And>k. k \<in> set t \<Longrightarrow> set k \<subseteq> set xs"
    by auto
  from Cons.prems ht have "l = [] \<or> l = x # h \<or> l = h \<or> l \<in> set t"
    by (auto split: if_splits)
  with ih show ?case by auto
qed

lemma unquoted_kept: "marker_stripped l l' \<Longrightarrow> \<not> prefix ''> '' l \<Longrightarrow> l' = l"
  by (auto simp: marker_stripped_def quoted_role_line_def)

lemma sub1_keeps_directive:
  assumes t: "t = A @ NL # ''.. chat::'' @ [NL, NL] @ ''   User:'' @ B"
  shows "\<exists>A' B'. re_sub pattern1 repl1 t = A' @ NL # ''.. chat::'' @ [NL, NL] @ ''   User:'' @ B'"
proof -
  define hb where "hb = hd (str_split B NL)"
  define tb where "tb = tl (str_split B NL)"
  define La where "La = str_split A NL"
  have n: "NL \<notin> set ''.. chat::''" "NL \<notin> set ''   User:''" by (simp_all add: NL_def)
  have "str_split (''   User:'' @ B) NL = (''   User:'' @ hb) # tb"
    unfolding hb_def tb_def using n(2) by (rule split_append_line)
  then have "str_split (''.. chat::'' @ NL # NL # ''   User:'' @ B) NL =
      [''.. chat::'', [], ''   User:'' @ hb] @ tb"
    using str_split_append [OF n(1), of "NL # ''   User:'' @ B"] by simp
  then have lt: "str_split t NL = La @ ([''.. chat::'', [], ''   User:'' @ hb] @ tb)"
    unfolding t La_def using split_append_sep [of A NL "''.. chat::'' @ NL # NL # ''   User:'' @ B"]
    by simp
  define Z where "Z = str_split (re_sub pattern1 repl1 t) NL"
  have rel: "list_all2 marker_stripped (La @ ([''.. chat::'', [], ''   User:'' @ hb] @ tb)) Z"
    unfolding Z_def lt [symmetric] by (rule sub1_relates_lines)
  then obtain Za Zr where Z: "Z = Za @ Zr" "length Za = length La"
    "list_all2 marker_stripped ([''.. chat::'', [], ''   User:'' @ hb] @ tb) Zr"
    by (auto simp: list_all2_append1)
  from Z(3) obtain l1 l2 l3 Zb where Zr: "Zr = l1 # l2 # l3 # Zb"
    "marker_stripped ''.. chat::'' l1" "marker_stripped [] l2"
    "marker_stripped (''   User:'' @ hb) l3"
    by (auto simp: list_all2_Cons1)
  have l: "l1 = ''.. chat::''" "l2 = []" "l3 = ''   User:'' @ hb"
    using Zr(2-4) by (auto dest!: unquoted_kept)
  have Za: "Za \<noteq> []" using Z(2) str_split_nonempty [of A NL] unfolding La_def by auto
  have "re_sub pattern1 repl1 t = str_join NL Z"
    unfolding Z_def by (simp add: join_split)
  also have "\<dots> = str_join NL Za @ NL # str_join NL (l1 # l2 # l3 # Zb)"
    unfolding Z(1) Zr(1) using Za by (intro join_append) simp_all
  also have "str_join NL (l1 # l2 # l3 # Zb) = l1 @ NL # l2 @ NL # str_join NL (l3 # Zb)"
    by simp
  also have "\<exists>X. str_join NL (l3 # Zb) = l3 @ X"
    by (cases Zb) simp_all
  then obtain X where "str_join NL (l3 # Zb) = l3 @ X" by blast
  finally have "re_sub pattern1 repl1 t =
      str_join NL Za @ NL # ''.. chat::'' @ [NL, NL] @ ''   User:'' @ (hb @ X)"
    unfolding l by simp
  then show ?thesis by (intro exI)
qed

lemma indent_directive: "indent (''.. chat::'' @ [NL]) ''   '' = ''   .. chat::'' @ [NL]"
  unfolding NL_def by code_simp

lemma indent_blank: "indent [NL] ''   '' = [NL]"
  unfolding NL_def by code_simp

lemma indent_keeps_directive:
  assumes z: "z = A @ NL # ''.. chat::'' @ [NL, NL] @ ''   User:'' @ B"
  shows "\<exists>Y B'. indent z ''   '' = Y @ NL # ''   .. chat::'' @ [NL, NL] @ ''      User:'' @ B'"
proof -
  have 1: "indent z ''   '' = indent (A @ [NL]) ''   '' @
      indent (''.. chat::'' @ NL # NL # ''   User:'' @ B) ''   ''"
    unfolding z using indent_append_newline [of A "''.. chat::'' @ NL # NL # ''   User:'' @ B"]
    by simp
  have 2: "indent (''.. chat::'' @ NL # NL # ''   User:'' @ B) ''   '' =
      indent (''.. chat::'' @ [NL]) ''   '' @ indent (NL # ''   User:'' @ B) ''   ''"
    by (rule indent_append_newline)
  have 3: "indent (NL # ''   User:'' @ B) ''   '' =
      indent [NL] ''   '' @ indent (''   User:'' @ B) ''   ''"
    using indent_append_newline [of "[]" "''   User:'' @ B"] by simp
  have "\<not> list_ex is_linebreak ''   User:''" "\<not> list_all is_space ''   User:''"
    by (simp_all add: is_linebreak_def is_space_def)
  from indent_first_line [OF this] obtain B' where
    4: "indent (''   User:'' @ B) ''   '' = ''   '' @ ''   User:'' @ B'" by blast
  from indent_ends_newline obtain Y where 5: "indent (A @ [NL]) ''   '' = Y @ [NL]" by blast
  have "indent z ''   '' = Y @ NL # ''   .. chat::'' @ [NL, NL] @ ''      User:'' @ B'"
    unfolding 1 2 3 4 5 indent_directive indent_blank by simp
  then show ?thesis by (intro exI)
qed

lemma tail_lines_cases:
  assumes e: "L1 @ X # Lw = LY @ [a, b, c]" and ne: "Lw \<noteq> []"
    and p: "\<forall>l \<in> set Lw. P l" and a: "\<not> P a"
  shows "X = a \<or> X = b"
proof -
  from e have "rev (L1 @ X # Lw) = rev (LY @ [a, b, c])" by simp
  then have r: "rev Lw @ X # rev L1 = c # b # a # rev LY" by simp
  from ne obtain x1 r1 where 1: "rev Lw = x1 # r1" by (cases "rev Lw") auto
  with r have r1: "r1 @ X # rev L1 = b # a # rev LY" by simp
  show ?thesis
  proof (cases r1)
    case Nil
    with r1 show ?thesis by simp
  next
    case (Cons x2 r2)
    with r1 have r2: "r2 @ X # rev L1 = a # rev LY" by simp
    show ?thesis
    proof (cases r2)
      case Nil
      with r2 show ?thesis by simp
    next
      case c3: (Cons x3 r3)
      with r2 have "x3 = a" by simp
      with 1 Cons c3 have "a \<in> set (rev Lw)" by simp
      with p a show ?thesis by simp
    qed
  qed
qed

lemma second_pass_no_match:
  assumes y: "y = Y @ NL # ''   .. chat::'' @ [NL, NL] @ ''      User:'' @ B"
    and one: "occurrences ''User:'' y = 1"
  shows "re_sub pattern2 repl2 y = y"
proof -
  have "\<forall>u v. y = u @ v \<longrightarrow>
      pattern2 \<lparr>pos = 0 + length u, rest = v, grp = (\<lambda>_. None)\<rparr> = []"
  proof (intro allI impI, rule ccontr)
    fix u v
    assume uv: "y = u @ v"
      and "pattern2 \<lparr>pos = 0 + length u, rest = v, grp = (\<lambda>_. None)\<rparr> \<noteq> []"
    then obtain m where "m \<in> set (pattern2 \<lparr>pos = 0 + length u, rest = v, grp = (\<lambda>_. None)\<rparr>)"
      by (cases "pattern2 \<lparr>pos = 0 + length u, rest = v, grp = (\<lambda>_. None)\<rparr>") auto
    from pattern2_sound [OF this] obtain g1 G where
      g1': "g1 = [] \<and> 0 + length u = 0 \<or> g1 = [NL]" and
      v: "v = g1 @ G @ ''   User:'' @ rest m" and
      G: "G = [] \<or>
            (\<exists>h g3 w. G = ''   '' @ h @ g3 @ NL # w \<and> h \<noteq> [] \<and>
               list_all (\<lambda>c. c = CHR ''#'' \<or> c = CHR '' '') h \<and> g3 \<noteq> [] \<and> NL \<notin> set g3 \<and>
               list_all is_space w)"
      by blast
    from g1' have g1: "g1 = [] \<and> u = [] \<or> g1 = [NL]" by simp
    have y1: "y = (u @ g1 @ G @ ''   '') @ ''User:'' @ rest m"
      unfolding uv v by simp
    have y2: "y = (Y @ NL # ''   .. chat::'' @ [NL, NL] @ ''      '') @ ''User:'' @ B"
      unfolding y by simp
    have "u @ g1 @ G @ ''   '' = Y @ NL # ''   .. chat::'' @ [NL, NL] @ ''      ''"
      using one _ y1 y2 by (rule unique_position) simp
    then have "(u @ g1 @ G) @ ''   '' = (Y @ NL # ''   .. chat::'' @ [NL, NL] @ ''   '') @ ''   ''"
      by simp
    then have E: "u @ g1 @ G = Y @ NL # ''   .. chat::'' @ [NL, NL] @ ''   ''"
      by (simp only: append_same_eq)
    from G show False
    proof
      assume G0: "G = []"
      from g1 show False
      proof
        assume "g1 = [] \<and> u = []"
        with E G0 show False by simp
      next
        assume "g1 = [NL]"
        with E G0 have "u @ [NL] = (Y @ NL # ''   .. chat::'' @ [NL, NL] @ ''  '') @ [CHR '' '']"
          by simp
        then have "NL = CHR '' ''" by (simp only: append1_eq_conv)
        then show False by (simp add: NL_def)
      qed
    next
      assume "\<exists>h g3 w. G = ''   '' @ h @ g3 @ NL # w \<and> h \<noteq> [] \<and>
               list_all (\<lambda>c. c = CHR ''#'' \<or> c = CHR '' '') h \<and> g3 \<noteq> [] \<and> NL \<notin> set g3 \<and>
               list_all is_space w"
      then obtain h g3 w where Gh: "G = ''   '' @ h @ g3 @ NL # w" and h: "h \<noteq> []"
        "list_all (\<lambda>c. c = CHR ''#'' \<or> c = CHR '' '') h" and g3: "g3 \<noteq> []" "NL \<notin> set g3"
        and w: "list_all is_space w" by blast
      define X where "X = ''   '' @ h @ g3"
      have Xn: "NL \<notin> set X" using h(2) g3(2) unfolding X_def
        by (auto simp: list_all_iff NL_def)
      have "\<exists>L1. str_split (u @ g1 @ X) NL = L1 @ [X]"
      proof -
        from g1 have "str_split (u @ g1 @ X) NL = [] @ [X] \<or>
            str_split (u @ g1 @ X) NL = str_split u NL @ [X]"
          using str_split_no_sep [OF Xn] split_append_sep [of u NL X] by auto
        then show ?thesis by blast
      qed
      then obtain L1 where L1: "str_split (u @ g1 @ X) NL = L1 @ [X]" by blast
      have "str_split (u @ g1 @ G) NL = str_split (u @ g1 @ X) NL @ str_split w NL"
        unfolding Gh X_def using split_append_sep [of "u @ g1 @ ''   '' @ h @ g3" NL w] by simp
      then have l: "str_split (u @ g1 @ G) NL = L1 @ X # str_split w NL"
        unfolding L1 by simp
      have n3: "NL \<notin> set ''   .. chat::''" "NL \<notin> set ''   ''" "NL \<notin> set []"
        by (simp_all add: NL_def)
      have "str_split (''   .. chat::'' @ NL # [] @ NL # ''   '') NL =
          [''   .. chat::'', [], ''   '']"
        by (simp only: str_split_append [OF n3(1)] str_split_append [OF n3(3)]
            str_split_no_sep [OF n3(2)])
      then have "str_split (''   .. chat::'' @ NL # NL # ''   '') NL =
          [''   .. chat::'', [], ''   '']"
        by (simp only: append_Nil)
      then have r: "str_split (Y @ NL # ''   .. chat::'' @ [NL, NL] @ ''   '') NL =
          str_split Y NL @ [''   .. chat::'', [], ''   '']"
        using split_append_sep [of Y NL "''   .. chat::'' @ NL # NL # ''   ''"] by simp
      have eq: "L1 @ X # str_split w NL = str_split Y NL @ [''   .. chat::'', [], ''   '']"
        using l r E by simp
      have ws: "\<forall>l \<in> set (str_split w NL). list_all is_space l"
        using line_chars [of _ w NL] w by (auto simp: list_all_iff)
      have na: "\<not> list_all is_space ''   .. chat::''" by (simp add: is_space_def)
      have "X = ''   .. chat::'' \<or> X = []"
        using eq str_split_nonempty ws na
        by (rule tail_lines_cases [where P = "list_all is_space"])
      then show False
      proof
        assume "X = ''   .. chat::''"
        then have "h @ g3 = ''.. chat::''" unfolding X_def by simp
        with h(1) have "hd h = CHR ''.''" by (cases h) auto
        with h show False by (cases h) auto
      next
        assume "X = []"
        then show False unfolding X_def by simp
      qed
    qed
  qed
  then show ?thesis unfolding re_sub_def by (rule sub_no_match)
qed

lemma transform_nonstrict:
  "transform_examples_to_chat_directives s False =
     Inr (re_sub pattern2 repl2 (indent (re_sub pattern1 repl1 s) ''   ''))"
  by (simp add: transform_examples_to_chat_directives_def Let_def)

lemma user_word: "NL \<notin> set ''User:''" "\<not> list_ex is_linebreak ''User:''"
  and opener_word: "NL \<notin> set ''.. chat::''" "\<not> list_ex is_linebreak ''.. chat::''"
  by (simp_all add: NL_def is_linebreak_def)

lemma occ_reindent:
  assumes "w = ''User:'' \<or> w = ''.. chat::''"
  shows "occurrences w (indent (re_sub pattern1 repl1 t) ''   '') = occurrences w t"
proof -
  from assms have 1: "w \<noteq> []" "\<not> list_ex is_linebreak w" "hd w \<notin> set ''   ''"
    "NL \<notin> set w" "hd w \<noteq> CHR ''>''" "hd w \<noteq> CHR '' ''"
    using user_word opener_word by auto
  from occ_indent [OF 1(1-3)] occ_sub1 [OF 1(4) 1(1) 1(5,6)] show ?thesis by simp
qed

section \<open>Evaluations of the transformer\<close>

lemma errors_distinct: "NoMessageFound \<noteq> NoDirectivePlacementFound"
  by (simp add: NoMessageFound_def NoDirectivePlacementFound_def)

lemma transform_basic:
  "transform_examples_to_chat_directives ''User: hello\<newline>Assistant: hi'' False =
     Inr ''\<newline>\<newline>.. chat::\<newline>\<newline>   User: hello\<newline>   Assistant: hi''"
  by code_simp

lemma indent_basic:
  "indent ''User: hello\<newline>Assistant: hi'' ''   '' = ''   User: hello\<newline>   Assistant: hi''"
  by code_simp

lemma transform_no_colons:
  "transform_examples_to_chat_directives ''no colons here'' True = Inl NoMessageFound"
  by code_simp

lemma transform_assistant_strict:
  "transform_examples_to_chat_directives ''Assistant: hi'' True = Inl NoMessageFound"
  by code_simp

lemma transform_quoted_assistant_strict:
  "transform_examples_to_chat_directives ''> Assistant: hi'' True = Inl NoDirectivePlacementFound"
  by code_simp

lemma transform_heading:
  "transform_examples_to_chat_directives ''# User: x\<newline>User: y'' False =
     Inr ''User: x\<newline>\<newline>.. chat::\<newline>\<newline>   User: y''"
  by code_simp

lemma transform_heading_again:
  "transform_examples_to_chat_directives
     ''User: x\<newline>\<newline>.. chat::\<newline>\<newline>   User: y'' False =
     Inr ''\<newline>\<newline>.. chat::\<newline>\<newline>   User: x\<newline>\<newline>   .. chat::\<newline>\<newline>      User: y''"
  by code_simp

lemma occurrences_heading:
  "occurrences ''.. chat::'' ''User: x\<newline>\<newline>.. chat::\<newline>\<newline>   User: y'' = 1"
  by code_simp

lemma occurrences_heading_again:
  "occurrences ''.. chat::''
     ''\<newline>\<newline>.. chat::\<newline>\<newline>   User: x\<newline>\<newline>   .. chat::\<newline>\<newline>      User: y'' = 2"
  by code_simp

section \<open>The strict failures\<close>

text \<open>
  Claim C1, as the code has it. In strict mode \<open>"no colons here"\<close> fails with the first
  assertion (no message found). \<open>"Assistant: hi"\<close> fails with the first assertion too:
  the line has no quoting marker, so the first substitution rewrites it to itself. The
  second assertion (no place for the directive) is what \<open>"> Assistant: hi"\<close> fails with.
\<close>

theorem strict_failures:
  "transform_examples_to_chat_directives ''no colons here'' True = Inl NoMessageFound \<and>
   transform_examples_to_chat_directives ''Assistant: hi'' True = Inl NoMessageFound \<and>
   transform_examples_to_chat_directives ''> Assistant: hi'' True = Inl NoDirectivePlacementFound"
  by (simp add: transform_no_colons transform_assistant_strict transform_quoted_assistant_strict)

text \<open>
  Claim C1 as written does not hold: the failure of \<open>"Assistant: hi"\<close> in strict mode is
  not the one of the directive placement.
\<close>

theorem strict_assistant_counterexample:
  "transform_examples_to_chat_directives ''Assistant: hi'' True \<noteq> Inl NoDirectivePlacementFound"
  by (simp add: transform_assistant_strict errors_distinct)

section \<open>The basic transcript\<close>

text \<open>
  Claim C7. Without strict mode, \<open>"User: hello\nAssistant: hi"\<close> is transformed to
  the directive line \<open>.. chat::\<close> between blank lines, followed by the two lines of the
  transcript, each indented by three spaces; the directive comes before the indented
  \<open>User: hello\<close>.
\<close>

theorem basic_transcript:
  "transform_examples_to_chat_directives ''User: hello\<newline>Assistant: hi'' False =
     Inr ([NL, NL] @ ''.. chat::'' @ [NL, NL] @
          indent ''User: hello\<newline>Assistant: hi'' ''   '') \<and>
   indent ''User: hello\<newline>Assistant: hi'' ''   '' =
     ''   User: hello'' @ [NL] @ ''   Assistant: hi''"
  by (simp add: transform_basic indent_basic NL_def)

section \<open>Texts without quoting markers\<close>

lemma lines_assistant: "str_split ''Assistant: hi'' NL = [''Assistant: hi'']"
  by (rule str_split_no_sep) (simp add: NL_def)

lemma unquoted_strict:
  assumes "\<forall>l \<in> set (str_split s NL). \<not> quoted_role_line l"
  shows "transform_examples_to_chat_directives s True = Inl NoMessageFound"
  using sub1_unchanged [OF assms] by (simp add: transform_examples_to_chat_directives_def)

text \<open>
  Claim C10. The first substitution changes a line only by deleting its leading quoting
  marker: line by line, the output is the input line or the input line without \<open>> \<close>.
  A text in which no line starts with \<open>> \<close> followed by characters with a colon stays
  as it is, so that in strict mode it fails with the first assertion; \<open>Assistant: hi\<close>
  is such a text, although it has a role line.
\<close>

theorem normalisation_strips_markers:
  "list_all2 marker_stripped (str_split s NL) (str_split (re_sub pattern1 repl1 s) NL) \<and>
   ((\<forall>l \<in> set (str_split s NL). \<not> quoted_role_line l) \<longrightarrow>
      re_sub pattern1 repl1 s = s \<and>
      transform_examples_to_chat_directives s True = Inl NoMessageFound) \<and>
   \<not> quoted_role_line ''Assistant: hi'' \<and>
   transform_examples_to_chat_directives ''Assistant: hi'' True = Inl NoMessageFound"
proof (intro conjI impI)
  show "list_all2 marker_stripped (str_split s NL) (str_split (re_sub pattern1 repl1 s) NL)"
    unfolding re_sub_def using sub1_lines [of s 0] by simp
  show "\<not> quoted_role_line ''Assistant: hi''"
    by (simp add: quoted_role_line_def)
  then have "\<forall>l \<in> set (str_split ''Assistant: hi'' NL). \<not> quoted_role_line l"
    unfolding lines_assistant by simp
  then show "transform_examples_to_chat_directives ''Assistant: hi'' True = Inl NoMessageFound"
    by (rule unquoted_strict)
next
  assume a: "\<forall>l \<in> set (str_split s NL). \<not> quoted_role_line l"
  then show "re_sub pattern1 repl1 s = s" by (rule sub1_unchanged)
  from a show "transform_examples_to_chat_directives s True = Inl NoMessageFound"
    by (rule unquoted_strict)
qed

text \<open>Claim C10 at the text \<open>User: hello\<close>.\<close>

theorem normalisation_strips_markers_witness:
  "str_split ''User: hello'' NL = [''User: hello''] \<and>
   \<not> quoted_role_line ''User: hello'' \<and>
   re_sub pattern1 repl1 ''User: hello'' = ''User: hello'' \<and>
   transform_examples_to_chat_directives ''User: hello'' True = Inl NoMessageFound"
proof -
  have l: "str_split ''User: hello'' NL = [''User: hello'']"
    by (rule str_split_no_sep) (simp add: NL_def)
  have q: "\<not> quoted_role_line ''User: hello''" by (simp add: quoted_role_line_def)
  have a: "\<forall>l \<in> set (str_split ''User: hello'' NL). \<not> quoted_role_line l"
    unfolding l using q by simp
  from normalisation_strips_markers [of "''User: hello''"] a l q show ?thesis by blast
qed

section \<open>Failures and strict mode\<close>

text \<open>
  Claim C5. The transformer fails with the first assertion only in strict mode and only
  when the first substitution left the text unchanged; with the second assertion only in
  strict mode and only when the second substitution left the indented text unchanged.
  Without strict mode it never fails: its result is the outcome of the two substitutions
  and the indentation, whether they changed anything or not.
\<close>

theorem failures_only_in_strict_mode:
  "(transform_examples_to_chat_directives s strict = Inl NoMessageFound \<longrightarrow>
      strict \<and> re_sub pattern1 repl1 s = s) \<and>
   (transform_examples_to_chat_directives s strict = Inl NoDirectivePlacementFound \<longrightarrow>
      strict \<and>
      re_sub pattern2 repl2 (indent (re_sub pattern1 repl1 s) ''   '') =
        indent (re_sub pattern1 repl1 s) ''   '') \<and>
   transform_examples_to_chat_directives s False =
     Inr (re_sub pattern2 repl2 (indent (re_sub pattern1 repl1 s) ''   ''))"
  using errors_distinct
  by (simp add: transform_examples_to_chat_directives_def Let_def split: if_splits)

text \<open>Claim C5 at \<open>no colons here\<close> and at \<open>> Assistant: hi\<close>, both in strict mode.\<close>

theorem failures_only_in_strict_mode_witness:
  "re_sub pattern1 repl1 ''no colons here'' = ''no colons here'' \<and>
   re_sub pattern2 repl2 (indent (re_sub pattern1 repl1 ''> Assistant: hi'') ''   '') =
     indent (re_sub pattern1 repl1 ''> Assistant: hi'') ''   ''"
  using failures_only_in_strict_mode [of "''no colons here''" True]
    failures_only_in_strict_mode [of "''> Assistant: hi''" True]
    transform_no_colons transform_quoted_assistant_strict
  by simp

section \<open>Transforming a second time\<close>

lemma transform_basic_again:
  "transform_examples_to_chat_directives
     ''\<newline>\<newline>.. chat::\<newline>\<newline>   User: hello\<newline>   Assistant: hi'' False =
     Inr ''\<newline>\<newline>   .. chat::\<newline>\<newline>      User: hello\<newline>      Assistant: hi''"
  by code_simp

lemma occurrences_basic:
  "occurrences ''.. chat::''
     ''\<newline>\<newline>.. chat::\<newline>\<newline>   User: hello\<newline>   Assistant: hi'' = 1"
  by code_simp

lemma occurrences_basic_again:
  "occurrences ''.. chat::''
     ''\<newline>\<newline>   .. chat::\<newline>\<newline>      User: hello\<newline>      Assistant: hi'' = 1"
  by code_simp

text \<open>
  Claim C6 as written does not hold. The output for \<open>"# User: x\nUser: y"\<close> has the
  directive opener once, under the heading text \<open>User: x\<close>, which the second
  substitution has moved to the start of its line; transformed again, that line is taken
  for a turn and a second opener is put in front of it.
\<close>

theorem second_header_counterexample:
  "transform_examples_to_chat_directives ''# User: x\<newline>User: y'' False =
     Inr ''User: x\<newline>\<newline>.. chat::\<newline>\<newline>   User: y'' \<and>
   occurrences ''.. chat::'' ''User: x\<newline>\<newline>.. chat::\<newline>\<newline>   User: y'' = 1 \<and>
   transform_examples_to_chat_directives
     ''User: x\<newline>\<newline>.. chat::\<newline>\<newline>   User: y'' False =
     Inr ''\<newline>\<newline>.. chat::\<newline>\<newline>   User: x\<newline>\<newline>   .. chat::\<newline>\<newline>      User: y'' \<and>
   occurrences ''.. chat::''
     ''\<newline>\<newline>.. chat::\<newline>\<newline>   User: x\<newline>\<newline>   .. chat::\<newline>\<newline>      User: y'' = 2"
  by (simp only: transform_heading transform_heading_again occurrences_heading
      occurrences_heading_again simp_thms)

text \<open>
  Claim C6, as the code has it. Take an input whose output, without strict mode, has the
  directive opener \<open>.. chat::\<close> exactly once, put there by the second substitution (it
  changed the indented text), and has the label \<open>User:\<close> exactly once, which is then
  the anchor under that opener. Transforming this output again inserts nothing: the
  result is the output with its markers stripped and indented once more, and it has the
  opener exactly once.
\<close>

theorem second_transform:
  assumes out: "transform_examples_to_chat_directives s False = Inr t"
    and changed: "t \<noteq> indent (re_sub pattern1 repl1 s) ''   ''"
    and opener: "occurrences ''.. chat::'' t = 1"
    and user: "occurrences ''User:'' t = 1"
  shows "transform_examples_to_chat_directives t False =
           Inr (indent (re_sub pattern1 repl1 t) ''   '') \<and>
         occurrences ''.. chat::'' (indent (re_sub pattern1 repl1 t) ''   '') = 1"
proof -
  define y1 where "y1 = indent (re_sub pattern1 repl1 s) ''   ''"
  from out have t: "t = re_sub_from pattern2 repl2 0 y1"
    unfolding transform_nonstrict y1_def re_sub_def by simp
  with changed have "re_sub_from pattern2 repl2 0 y1 \<noteq> y1" unfolding y1_def by simp
  from sub2_changed_shape [OF this] t obtain A B where
    "t = A @ NL # ''.. chat::'' @ [NL, NL] @ ''   User:'' @ B" by auto
  from sub1_keeps_directive [OF this] obtain A' B' where
    "re_sub pattern1 repl1 t = A' @ NL # ''.. chat::'' @ [NL, NL] @ ''   User:'' @ B'" by blast
  from indent_keeps_directive [OF this] obtain Y B'' where
    y: "indent (re_sub pattern1 repl1 t) ''   '' =
          Y @ NL # ''   .. chat::'' @ [NL, NL] @ ''      User:'' @ B''" by blast
  have "occurrences ''User:'' (indent (re_sub pattern1 repl1 t) ''   '') = 1"
    using occ_reindent [of "''User:''" t] user by simp
  from second_pass_no_match [OF y this]
  have "transform_examples_to_chat_directives t False =
           Inr (indent (re_sub pattern1 repl1 t) ''   '')"
    unfolding transform_nonstrict by simp
  moreover have "occurrences ''.. chat::'' (indent (re_sub pattern1 repl1 t) ''   '') = 1"
    using occ_reindent [of "''.. chat::''" t] opener by simp
  ultimately show ?thesis by simp
qed

lemma indent_sub1_basic:
  "indent (re_sub pattern1 repl1 ''User: hello\<newline>Assistant: hi'') ''   '' =
     ''   User: hello\<newline>   Assistant: hi''"
  by code_simp

lemma occurrences_user_basic:
  "occurrences ''User:''
     ''\<newline>\<newline>.. chat::\<newline>\<newline>   User: hello\<newline>   Assistant: hi'' = 1"
  by code_simp

lemma transform_quoted:
  "transform_examples_to_chat_directives ''# Example\<newline>> User: hi'' False =
     Inr ''Example\<newline>\<newline>.. chat::\<newline>\<newline>   User: hi''"
  by code_simp

lemma indent_sub1_quoted:
  "indent (re_sub pattern1 repl1 ''# Example\<newline>> User: hi'') ''   '' =
     ''   # Example\<newline>   User: hi''"
  by code_simp

lemma occurrences_quoted:
  "occurrences ''.. chat::'' ''Example\<newline>\<newline>.. chat::\<newline>\<newline>   User: hi'' = 1"
  "occurrences ''User:'' ''Example\<newline>\<newline>.. chat::\<newline>\<newline>   User: hi'' = 1"
  by code_simp+

text \<open>
  Claim C6 at the basic transcript \<open>"User: hello\nAssistant: hi"\<close> and at a quoted
  transcript under a heading, \<open>"# Example\n> User: hi"\<close>.
\<close>

theorem second_transform_witness:
  "transform_examples_to_chat_directives
     ''\<newline>\<newline>.. chat::\<newline>\<newline>   User: hello\<newline>   Assistant: hi'' False =
     Inr (indent (re_sub pattern1 repl1
       ''\<newline>\<newline>.. chat::\<newline>\<newline>   User: hello\<newline>   Assistant: hi'') ''   '') \<and>
   occurrences ''.. chat::'' (indent (re_sub pattern1 repl1
       ''\<newline>\<newline>.. chat::\<newline>\<newline>   User: hello\<newline>   Assistant: hi'') ''   '') = 1 \<and>
   transform_examples_to_chat_directives
     ''Example\<newline>\<newline>.. chat::\<newline>\<newline>   User: hi'' False =
     Inr (indent (re_sub pattern1 repl1
       ''Example\<newline>\<newline>.. chat::\<newline>\<newline>   User: hi'') ''   '') \<and>
   occurrences ''.. chat::'' (indent (re_sub pattern1 repl1
       ''Example\<newline>\<newline>.. chat::\<newline>\<newline>   User: hi'') ''   '') = 1"
proof -
  have 1: "''\<newline>\<newline>.. chat::\<newline>\<newline>   User: hello\<newline>   Assistant: hi'' \<noteq>
      indent (re_sub pattern1 repl1 ''User: hello\<newline>Assistant: hi'') ''   ''"
    unfolding indent_sub1_basic by simp
  have 2: "''Example\<newline>\<newline>.. chat::\<newline>\<newline>   User: hi'' \<noteq>
      indent (re_sub pattern1 repl1 ''# Example\<newline>> User: hi'') ''   ''"
    unfolding indent_sub1_quoted by simp
  from second_transform [OF transform_basic 1 occurrences_basic occurrences_user_basic]
    second_transform [OF transform_quoted 2 occurrences_quoted]
  show ?thesis by simp
qed

end
